theory Spec2Isabelle
  imports Main "HOL-Library.Word" "HOL-Library.Signed_Division"
begin

unbundle bit_operations_syntax

section \<open>Go values\<close>

text \<open>
  A \<^verbatim>\<open>uint64\<close> is a 64-bit word. Go's \<^verbatim>\<open>int\<close> is taken at its 64-bit size: a
  mathematical integer in the range of \<open>is_int\<close>, every arithmetic result wrapped by
  \<open>wrap_int\<close> (two's complement). The conversion \<^verbatim>\<open>uint(p)\<close> keeps the 64 bits
  and reads them unsigned; \<^verbatim>\<open>int(w)\<close> of a \<^verbatim>\<open>uint64\<close> keeps the bits and
  reads them signed. A shift by a count of 64 or more gives 0 in Go, as \<open>push_bit\<close>
  and \<open>drop_bit\<close> do on a 64-bit word.
\<close>

type_synonym uint64 = "64 word"

definition is_int :: "int \<Rightarrow> bool" where
  "is_int v \<longleftrightarrow> - (2 ^ 63) \<le> v \<and> v < 2 ^ 63"

definition wrap_int :: "int \<Rightarrow> int" where
  "wrap_int v = signed_take_bit 63 v"

definition go_uint :: "int \<Rightarrow> nat" where
  "go_uint p = nat (p mod 2 ^ 64)"

definition go_int :: "uint64 \<Rightarrow> int" where
  "go_int w = sint w"

text \<open>
  A run-time panic of Go (an index out of range, an integer division by zero) ends the
  call; an \<^verbatim>\<open>error\<close> value is returned beside the result.
\<close>

datatype panic = IndexOutOfRange | DivideByZero

datatype go_error = Error string | ErrSyntax | ErrRange

section \<open>Package util: bit operations\<close>

definition SetBit :: "uint64 \<Rightarrow> int \<Rightarrow> uint64" where
  "SetBit i p = (let mask = push_bit (go_uint p) 1 in i OR mask)"

definition ClearBit :: "uint64 \<Rightarrow> int \<Rightarrow> uint64" where
  "ClearBit i p = (let mask = NOT (push_bit (go_uint p) 1) in i AND mask)"

definition ToggleBit :: "uint64 \<Rightarrow> int \<Rightarrow> uint64" where
  "ToggleBit i p = (let mask = push_bit (go_uint p) 1 in i XOR mask)"

definition GetBit :: "uint64 \<Rightarrow> int \<Rightarrow> int" where
  "GetBit i p = go_int (drop_bit (go_uint p) i AND 1)"

definition IsBitSet :: "uint64 \<Rightarrow> int \<Rightarrow> bool" where
  "IsBitSet i p = (let mask = push_bit (go_uint p) 1 in i AND mask \<noteq> 0)"

text \<open>\<^verbatim>\<open>Union\<close> of the source; the loop \<^verbatim>\<open>u = u | v\<close> from \<^verbatim>\<open>u = 0\<close>.\<close>

definition Union_uint64 :: "uint64 list \<Rightarrow> uint64" where
  "Union_uint64 i = foldl (\<lambda>u v. u OR v) 0 i"

definition PopCount :: "uint64 \<Rightarrow> int" where
  "PopCount i =
    (let mask1 = 0x5555555555555555;
         mask2 = 0x3333333333333333;
         mask4 = 0x0f0f0f0f0f0f0f0f;
         i1 = i - (drop_bit 1 i AND mask1);
         i2 = (i1 AND mask2) + (drop_bit 2 i1 AND mask2);
         i3 = (i2 + drop_bit 4 i2) AND mask4;
         i4 = i3 + drop_bit 8 i3;
         i5 = i4 + drop_bit 16 i4;
         i6 = i5 + drop_bit 32 i5
     in go_int (i6 AND 0x7f))"

section \<open>Package bitboard: flipping and rotating\<close>

definition FlipVertical :: "uint64 \<Rightarrow> uint64" where
  "FlipVertical i =
    (let k1 = 0x00FF00FF00FF00FF;
         k2 = 0x0000FFFF0000FFFF;
         i1 = (drop_bit 8 i AND k1) OR push_bit 8 (i AND k1);
         i2 = (drop_bit 16 i1 AND k2) OR push_bit 16 (i1 AND k2);
         i3 = drop_bit 32 i2 OR push_bit 32 i2
     in i3)"

definition FlipHorizontal :: "uint64 \<Rightarrow> uint64" where
  "FlipHorizontal i =
    (let k1 = 0x5555555555555555;
         k2 = 0x3333333333333333;
         k4 = 0x0f0f0f0f0f0f0f0f;
         i1 = (drop_bit 1 i AND k1) + 2 * (i AND k1);
         i2 = (drop_bit 2 i1 AND k2) + 4 * (i1 AND k2);
         i3 = (drop_bit 4 i2 AND k4) + 16 * (i2 AND k4)
     in i3)"

definition FlipDiagonalA1H8 :: "uint64 \<Rightarrow> uint64" where
  "FlipDiagonalA1H8 i =
    (let k1 = 0x5500550055005500;
         k2 = 0x3333000033330000;
         k4 = 0x0f0f0f0f00000000;
         t1 = k4 AND (i XOR push_bit 28 i);
         i1 = i XOR (t1 XOR drop_bit 28 t1);
         t2 = k2 AND (i1 XOR push_bit 14 i1);
         i2 = i1 XOR (t2 XOR drop_bit 14 t2);
         t3 = k1 AND (i2 XOR push_bit 7 i2);
         i3 = i2 XOR (t3 XOR drop_bit 7 t3)
     in i3)"

definition FlipDiagonalA8H1 :: "uint64 \<Rightarrow> uint64" where
  "FlipDiagonalA8H1 i =
    (let k1 = 0xaa00aa00aa00aa00;
         k2 = 0xcccc0000cccc0000;
         k4 = 0xf0f0f0f00f0f0f0f;
         t1 = i XOR push_bit 36 i;
         i1 = i XOR (k4 AND (t1 XOR drop_bit 36 i));
         t2 = k2 AND (i1 XOR push_bit 18 i1);
         i2 = i1 XOR (t2 XOR drop_bit 18 t2);
         t3 = k1 AND (i2 XOR push_bit 9 i2);
         i3 = i2 XOR (t3 XOR drop_bit 9 t3)
     in i3)"

definition Rotate180 :: "uint64 \<Rightarrow> uint64" where
  "Rotate180 i = FlipHorizontal (FlipVertical i)"

definition Rotate90 :: "uint64 \<Rightarrow> uint64" where
  "Rotate90 i = FlipVertical (FlipDiagonalA1H8 i)"

definition Rotate270 :: "uint64 \<Rightarrow> uint64" where
  "Rotate270 i = FlipDiagonalA1H8 (FlipVertical i)"

section \<open>Package util: coordinate conversions\<close>

text \<open>
  Go strings are byte sequences, as \<open>string\<close> is here. \<^verbatim>\<open>string(c)\<close> of a byte
  \<open>c\<close> is the UTF-8 encoding of the code point \<open>c\<close>: the byte itself below 128, two
  bytes from 128 on.
\<close>

definition string_of_byte :: "char \<Rightarrow> string" where
  "string_of_byte c =
    (let n = of_char c :: nat
     in if n < 128 then [c] else [char_of (192 + n div 64), char_of (128 + n mod 64)])"

definition is_digit :: "char \<Rightarrow> bool" where
  "is_digit c \<longleftrightarrow> 48 \<le> (of_char c :: nat) \<and> (of_char c :: nat) \<le> 57"

definition digit_val :: "char \<Rightarrow> int" where
  "digit_val c = int (of_char c) - 48"

text \<open>
  \<^verbatim>\<open>strconv.Atoi\<close> of Go's standard library: an optional sign and at least one
  decimal digit, nothing else; a syntax error returns 0, a value outside
  \<^verbatim>\<open>int\<close> returns the nearest bound and a range error.
\<close>

definition Atoi :: "string \<Rightarrow> int \<times> go_error option" where
  "Atoi s =
    (let neg = (case s of [] \<Rightarrow> False | c # _ \<Rightarrow> c = CHR ''-'');
         ds = (case s of [] \<Rightarrow> [] | c # cs \<Rightarrow> if c = CHR ''+'' \<or> c = CHR ''-'' then cs else s)
     in if ds = [] \<or> \<not> list_all is_digit ds then (0, Some ErrSyntax)
        else let n = foldl (\<lambda>a c. a * 10 + digit_val c) 0 ds
             in if \<not> neg \<and> 2 ^ 63 \<le> n then (2 ^ 63 - 1, Some ErrRange)
                else if neg \<and> 2 ^ 63 < n then (- (2 ^ 63), Some ErrRange)
                else (if neg then - n else n, None))"

text \<open>The decimal text of an \<^verbatim>\<open>int\<close>, as \<^verbatim>\<open>%v\<close> prints it.\<close>

fun digits :: "nat \<Rightarrow> string" where
  "digits n =
    (if n < 10 then [''0123456789'' ! n]
     else digits (n div 10) @ [''0123456789'' ! (n mod 10)])"

declare digits.simps [simp del]

definition format_int :: "int \<Rightarrow> string" where
  "format_int v = (if v < 0 then CHR ''-'' # digits (nat (- v)) else digits (nat v))"

definition symbols :: "string list" where
  "symbols = [''a'', ''b'', ''c'', ''d'', ''e'', ''f'', ''g'', ''h'']"

definition AlgebraicToCartesian :: "string \<Rightarrow> int \<Rightarrow> panic + (int \<times> int)" where
  "AlgebraicToCartesian p files =
    (if length p < 2 then Inl IndexOutOfRange
     else let x = foldl (\<lambda>x (i, v). if string_of_byte (p ! 0) = v then int i else x) 0
                    (enumerate 0 symbols);
              y = fst (Atoi (string_of_byte (p ! 1)))
          in Inr (x, wrap_int (y - 1)))"

definition CartesianToBit :: "int \<Rightarrow> int \<Rightarrow> int \<Rightarrow> int" where
  "CartesianToBit x y files = (let bit = wrap_int (wrap_int (y * files) + x) in bit)"

definition AlgebraicToBit :: "string \<Rightarrow> int \<Rightarrow> panic + int" where
  "AlgebraicToBit p files =
    (case AlgebraicToCartesian p files of
       Inl e \<Rightarrow> Inl e
     | Inr (x, y) \<Rightarrow> Inr (CartesianToBit x y files))"

text \<open>Go's \<^verbatim>\<open>/\<close> and \<^verbatim>\<open>%\<close> truncate towards zero and panic on a zero divisor.\<close>

definition BitToCartesian :: "int \<Rightarrow> int \<Rightarrow> panic + (int \<times> int)" where
  "BitToCartesian p files =
    (if files = 0 then Inl DivideByZero
     else let x = wrap_int (p smod files);
              y = wrap_int (p sdiv files)
          in Inr (x, y))"

definition CartesianToAlgebraic :: "int \<Rightarrow> int \<Rightarrow> int \<Rightarrow> panic + string" where
  "CartesianToAlgebraic x y files =
    (if x < 0 \<or> int (length symbols) \<le> x then Inl IndexOutOfRange
     else Inr (symbols ! nat x @ format_int (wrap_int (y + 1))))"

definition BitToAlgebraic :: "int \<Rightarrow> int \<Rightarrow> panic + string" where
  "BitToAlgebraic p files =
    (case BitToCartesian p files of
       Inl e \<Rightarrow> Inl e
     | Inr (x, y) \<Rightarrow> CartesianToAlgebraic x y files)"

section \<open>Package bitboard: the aggregate\<close>

record Bitboard =
  Bitmaps :: "uint64 list"
  Symbols :: "string list"
  Occupied :: uint64
  Ranks :: int
  Files :: int

text \<open>The loop of \<^verbatim>\<open>GetBitmapIndex\<close> over the bitmaps from index \<open>i\<close> on.\<close>

fun scan_bitmaps :: "uint64 list \<Rightarrow> int \<Rightarrow> int \<Rightarrow> int" where
  "scan_bitmaps [] p i = - 1"
| "scan_bitmaps (m # ms) p i = (if GetBit m p \<noteq> 0 then i else scan_bitmaps ms p (i + 1))"

definition GetBitmapIndex :: "Bitboard \<Rightarrow> int \<Rightarrow> int" where
  "GetBitmapIndex b p =
    (if GetBit (Occupied b) p = 0 then - 1 else scan_bitmaps (Bitmaps b) p 0)"

text \<open>
  The mutators update \<open>Occupied\<close> first and the category bitmap second; indexing
  \<^verbatim>\<open>b.Bitmaps[m]\<close> outside the slice panics and the call does not return.
\<close>

definition PlacePieceBit :: "Bitboard \<Rightarrow> int \<Rightarrow> int \<Rightarrow> panic + Bitboard" where
  "PlacePieceBit b m p =
    (let b1 = b\<lparr>Occupied := SetBit (Occupied b) p\<rparr>
     in if m < 0 \<or> int (length (Bitmaps b1)) \<le> m then Inl IndexOutOfRange
        else Inr (b1\<lparr>Bitmaps := (Bitmaps b1)[nat m := SetBit (Bitmaps b1 ! nat m) p]\<rparr>))"

definition RemovePieceBit :: "Bitboard \<Rightarrow> int \<Rightarrow> int \<Rightarrow> panic + Bitboard" where
  "RemovePieceBit b m p =
    (let b1 = b\<lparr>Occupied := ClearBit (Occupied b) p\<rparr>
     in if m < 0 \<or> int (length (Bitmaps b1)) \<le> m then Inl IndexOutOfRange
        else Inr (b1\<lparr>Bitmaps := (Bitmaps b1)[nat m := ClearBit (Bitmaps b1 ! nat m) p]\<rparr>))"

definition MovePieceBit :: "Bitboard \<Rightarrow> int \<Rightarrow> int \<Rightarrow> int \<Rightarrow> panic + Bitboard" where
  "MovePieceBit b m p1 p2 =
    (case RemovePieceBit b m p1 of
       Inl e \<Rightarrow> Inl e
     | Inr b1 \<Rightarrow> PlacePieceBit b1 m p2)"

text \<open>
  \<^verbatim>\<open>New\<close> returns the board and the error together: each failed check overwrites
  \<^verbatim>\<open>err\<close>, none of them returns, and the dimensions are stored in every case.
\<close>

definition New :: "int \<Rightarrow> int \<Rightarrow> Bitboard \<times> go_error option" where
  "New ranks files =
    (let b = \<lparr>Bitmaps = [], Symbols = [], Occupied = 0, Ranks = 0, Files = 0\<rparr>;
         err0 = None;
         err1 = (if ranks < 0
                 then Some (Error ''bitboard: number of ranks must be greater than zero'')
                 else err0);
         err2 = (if files < 0
                 then Some (Error ''bitboard: number of files must be greater than zero'')
                 else err1);
         err3 = (if wrap_int (ranks * files) > 64
                 then Some (Error ''bitboard: bitboards cannot be larger than 64 squares'')
                 else err2)
     in (b\<lparr>Ranks := ranks, Files := files\<rparr>, err3))"

definition NewChessBoard :: Bitboard where
  "NewChessBoard =
    (let bitmaps = [0x0000000000000081, 0x0000000000000042, 0x0000000000000024,
                    0x0000000000000008, 0x0000000000000010, 0x000000000000ff00,
                    0x8100000000000000, 0x4200000000000000, 0x2400000000000000,
                    0x0800000000000000, 0x1000000000000000, 0x00ff000000000000];
         symbols = [''R'', ''N'', ''B'', ''Q'', ''K'', ''P'', ''r'', ''n'', ''b'', ''q'', ''k'', ''p''];
         occupied = Union_uint64 bitmaps
     in \<lparr>Bitmaps = bitmaps, Symbols = symbols, Occupied = occupied, Ranks = 8, Files = 8\<rparr>)"

definition NewCheckersBoard :: Bitboard where
  "NewCheckersBoard =
    (let bitmaps = [0xaa55aa0000000000, 0x000000000055aa55];
         symbols = [''R'', ''W''];
         occupied = Union_uint64 bitmaps
     in \<lparr>Bitmaps = bitmaps, Symbols = symbols, Occupied = occupied, Ranks = 8, Files = 8\<rparr>)"

definition NewOthelloBoard :: Bitboard where
  "NewOthelloBoard =
    (let bitmaps = [0x0000001008000000, 0x0000000810000000];
         symbols = [''B'', ''W''];
         occupied = Union_uint64 bitmaps
     in \<lparr>Bitmaps = bitmaps, Symbols = symbols, Occupied = occupied, Ranks = 8, Files = 8\<rparr>)"

definition NewReversiBoard :: Bitboard where
  "NewReversiBoard =
    (let bitmaps = [0x0000000000000000, 0x0000000000000000];
         symbols = [''B'', ''W''];
         occupied = Union_uint64 bitmaps
     in \<lparr>Bitmaps = bitmaps, Symbols = symbols, Occupied = occupied, Ranks = 8, Files = 8\<rparr>)"

definition NewTicTacToeBoard :: Bitboard where
  "NewTicTacToeBoard =
    (let bitmaps = [0x0000000000000000, 0x0000000000000000];
         symbols = [''X'', ''O''];
         occupied = Union_uint64 bitmaps
     in \<lparr>Bitmaps = bitmaps, Symbols = symbols, Occupied = occupied, Ranks = 3, Files = 3\<rparr>)"

definition NewConnectFourBoard :: Bitboard where
  "NewConnectFourBoard =
    (let bitmaps = [0x0000000000000000, 0x0000000000000000];
         symbols = [''R'', ''Y''];
         occupied = Union_uint64 bitmaps
     in \<lparr>Bitmaps = bitmaps, Symbols = symbols, Occupied = occupied, Ranks = 6, Files = 7\<rparr>)"

section \<open>Reachable boards\<close>

text \<open>A position is in range for a board when it is in \<open>[0, Ranks * Files)\<close>.\<close>

definition in_range :: "Bitboard \<Rightarrow> int \<Rightarrow> bool" where
  "in_range b p \<longleftrightarrow> 0 \<le> p \<and> p < wrap_int (Ranks b * Files b)"

text \<open>
  The boards that the public operations produce from a preset constructor:
  the step relation of \<open>PlacePieceBit\<close>, \<open>RemovePieceBit\<close> and \<open>MovePieceBit\<close>
  at in-range positions (a call that panics produces no board).
\<close>

inductive reachable :: "Bitboard \<Rightarrow> bool" where
  chess: "reachable NewChessBoard"
| checkers: "reachable NewCheckersBoard"
| othello: "reachable NewOthelloBoard"
| reversi: "reachable NewReversiBoard"
| tictactoe: "reachable NewTicTacToeBoard"
| connectfour: "reachable NewConnectFourBoard"
| place: "reachable b \<Longrightarrow> in_range b p \<Longrightarrow> PlacePieceBit b m p = Inr b' \<Longrightarrow> reachable b'"
| remove: "reachable b \<Longrightarrow> in_range b p \<Longrightarrow> RemovePieceBit b m p = Inr b' \<Longrightarrow> reachable b'"
| move: "reachable b \<Longrightarrow> in_range b p1 \<Longrightarrow> in_range b p2
    \<Longrightarrow> MovePieceBit b m p1 p2 = Inr b' \<Longrightarrow> reachable b'"

text \<open>Square \<open>p\<close> is held by a category other than \<open>m\<close>.\<close>

definition held_by_other :: "Bitboard \<Rightarrow> int \<Rightarrow> int \<Rightarrow> bool" where
  "held_by_other b m p \<longleftrightarrow>
    list_ex (\<lambda>(j, w). int j \<noteq> m \<and> GetBit w p \<noteq> 0) (enumerate 0 (Bitmaps b))"

text \<open>
  The same step relation, where a removal (alone or as the first half of a move) never
  targets a square that another category holds.
\<close>

inductive reachable_own :: "Bitboard \<Rightarrow> bool" where
  chess: "reachable_own NewChessBoard"
| checkers: "reachable_own NewCheckersBoard"
| othello: "reachable_own NewOthelloBoard"
| reversi: "reachable_own NewReversiBoard"
| tictactoe: "reachable_own NewTicTacToeBoard"
| connectfour: "reachable_own NewConnectFourBoard"
| place: "reachable_own b \<Longrightarrow> in_range b p \<Longrightarrow> PlacePieceBit b m p = Inr b'
    \<Longrightarrow> reachable_own b'"
| remove: "reachable_own b \<Longrightarrow> in_range b p \<Longrightarrow> \<not> held_by_other b m p
    \<Longrightarrow> RemovePieceBit b m p = Inr b' \<Longrightarrow> reachable_own b'"
| move: "reachable_own b \<Longrightarrow> in_range b p1 \<Longrightarrow> in_range b p2 \<Longrightarrow> \<not> held_by_other b m p1
    \<Longrightarrow> MovePieceBit b m p1 p2 = Inr b' \<Longrightarrow> reachable_own b'"

section \<open>Reference definitions\<close>

text \<open>
  The naive population count of the specification: the number of positions in
  \<open>[0, 64)\<close> whose bit is set.
\<close>

definition PopCount_naive :: "uint64 \<Rightarrow> int" where
  "PopCount_naive i = int (length (filter (\<lambda>p. bit i p) [0..<64]))"

section \<open>Auxiliary definitions\<close>

text \<open>
  The two shapes of a stage in the flips: exchanging the fields selected by a mask with
  their neighbours \<open>s\<close> bits up, and the XOR form of the same exchange.
\<close>

definition mask_swap :: "uint64 \<Rightarrow> nat \<Rightarrow> uint64 \<Rightarrow> uint64" where
  "mask_swap k s w = (drop_bit s w AND k) OR push_bit s (w AND k)"

definition delta_swap :: "uint64 \<Rightarrow> nat \<Rightarrow> uint64 \<Rightarrow> uint64" where
  "delta_swap k s w = (let t = k AND (w XOR push_bit s w) in w XOR (t XOR drop_bit s t))"

text \<open>
  For the population count, on natural numbers: \<open>bit_count k x\<close> counts the set bits
  among the low \<open>k\<close> positions of \<open>x\<close>; \<open>field_counts w n x\<close> is the number whose
  \<open>n\<close> fields of width \<open>w\<close> hold the bit counts of the corresponding fields of \<open>x\<close>;
  \<open>repeat_mask w n m\<close> repeats the pattern \<open>m\<close> in \<open>n\<close> fields of width \<open>w\<close>.
\<close>

primrec bit_count :: "nat \<Rightarrow> nat \<Rightarrow> nat" where
  "bit_count 0 x = 0"
| "bit_count (Suc k) x = of_bool (odd x) + bit_count k (x div 2)"

primrec field_counts :: "nat \<Rightarrow> nat \<Rightarrow> nat \<Rightarrow> nat" where
  "field_counts w 0 x = 0"
| "field_counts w (Suc n) x = bit_count w x + 2 ^ w * field_counts w n (x div 2 ^ w)"

primrec repeat_mask :: "nat \<Rightarrow> nat \<Rightarrow> nat \<Rightarrow> nat" where
  "repeat_mask w 0 m = 0"
| "repeat_mask w (Suc n) m = m + 2 ^ w * repeat_mask w n m"

section \<open>Bit primitives at positions outside the word\<close>

lemma go_uint_outside:
  assumes "is_int p" and "p < 0 \<or> 64 \<le> p"
  shows "64 \<le> go_uint p"
proof (cases "p < 0")
  case True
  with assms(1) have "(p + 2 ^ 64) mod 2 ^ 64 = p + 2 ^ 64"
    by (intro mod_pos_pos_trivial) (simp_all add: is_int_def)
  then have "p mod 2 ^ 64 = p + 2 ^ 64"
    by simp
  moreover from assms(1) have "64 \<le> p + 2 ^ 64"
    by (simp add: is_int_def)
  ultimately show ?thesis
    by (simp add: go_uint_def)
next
  case False
  with assms have "p mod 2 ^ 64 = p"
    by (simp add: is_int_def)
  with assms(2) False show ?thesis
    by (simp add: go_uint_def)
qed

lemma push_bit_outside: "64 \<le> n \<Longrightarrow> push_bit n (1 :: uint64) = 0"
  by simp

lemma drop_bit_outside: "64 \<le> n \<Longrightarrow> drop_bit n (w :: uint64) = 0"
  by (rule bit_word_eqI) (simp add: bit_simps)

text \<open>
  C9. For a position \<open>p\<close> of Go's \<^verbatim>\<open>int\<close> outside \<open>[0, 64)\<close>, negative or at
  least 64, \<open>SetBit\<close>, \<open>ClearBit\<close> and \<open>ToggleBit\<close> return the board unchanged and
  \<open>GetBit\<close> returns 0: the shift count is at least 64, so the mask is zero (or all
  ones after the complement).
\<close>

theorem bit_primitives_outside_width:
  assumes "is_int p" and "p < 0 \<or> 64 \<le> p"
  shows "SetBit i p = i \<and> ClearBit i p = i \<and> ToggleBit i p = i \<and> GetBit i p = 0"
proof -
  have "64 \<le> go_uint p"
    using assms by (rule go_uint_outside)
  then have "push_bit (go_uint p) (1 :: uint64) = 0" and "drop_bit (go_uint p) i = 0"
    by (rule push_bit_outside, rule drop_bit_outside)
  then show ?thesis
    by (simp add: SetBit_def ClearBit_def ToggleBit_def GetBit_def go_int_def
        del: push_bit_of_1)
qed

theorem bit_primitives_outside_width_witness:
  "is_int (-1) \<and> ((-1 :: int) < 0 \<or> 64 \<le> (-1 :: int))
    \<and> SetBit 5 (-1) = 5 \<and> ClearBit 5 (-1) = 5 \<and> ToggleBit 5 (-1) = 5 \<and> GetBit 5 (-1) = 0"
proof -
  have h1: "is_int (-1)" by (simp add: is_int_def)
  have h2: "(-1 :: int) < 0 \<or> 64 \<le> (-1 :: int)" by simp
  show ?thesis
    using h1 h2 bit_primitives_outside_width [OF h1 h2, of 5] by simp
qed

section \<open>Construction\<close>

text \<open>
  C5. \<open>New\<close> is claimed to return an error whenever \<open>ranks \<le> 0\<close> or \<open>files \<le> 0\<close>.
  The checks of the source are \<^verbatim>\<open>ranks < 0\<close> and \<^verbatim>\<open>files < 0\<close>, under messages
  that say "must be greater than zero": with zero ranks \<open>New\<close> returns no error.
\<close>

theorem New_zero_dimension_no_error:
  "New 0 8 = (\<lparr>Bitmaps = [], Symbols = [], Occupied = 0, Ranks = 0, Files = 8\<rparr>, None)"
  by (simp add: New_def wrap_int_def)




section \<open>Looking up the category of a square\<close>

lemma GetBit_bit: "GetBit w p = of_bool (bit w (go_uint p))"
  by (simp add: GetBit_def go_int_def and_one_eq mod_2_eq_odd bit_iff_odd_drop_bit)

lemma go_uint_nat: "0 \<le> p \<Longrightarrow> p < 2 ^ 63 \<Longrightarrow> go_uint p = nat p"
  by (simp add: go_uint_def)

lemma wrap_int_less: "wrap_int v < 2 ^ 63"
  unfolding wrap_int_def by (rule signed_take_bit_int_less_exp)

lemma bit_foldl_or:
  "bit (foldl (\<lambda>u v. u OR v) a xs) n \<longleftrightarrow> bit a n \<or> (\<exists>i<length xs. bit (xs ! i) n)"
    for a :: uint64
proof (induction xs arbitrary: a)
  case Nil
  show ?case by simp
next
  case (Cons x xs)
  show ?case
    by (auto simp add: Cons.IH bit_or_iff less_Suc_eq_0_disj)
qed

lemma bit_Union_uint64:
  "bit (Union_uint64 xs) n \<longleftrightarrow> (\<exists>i<length xs. bit (xs ! i) n)"
  by (simp add: Union_uint64_def bit_foldl_or)

lemma scan_bitmaps_first:
  "(if \<exists>k<length ms. bit (ms ! k) (go_uint p)
    then \<exists>k<length ms. scan_bitmaps ms p i = i + int k \<and> bit (ms ! k) (go_uint p)
           \<and> (\<forall>j<k. \<not> bit (ms ! j) (go_uint p))
    else scan_bitmaps ms p i = - 1)"
proof (induction ms arbitrary: i)
  case Nil
  show ?case by simp
next
  case (Cons m ms)
  show ?case
  proof (cases "bit m (go_uint p)")
    case True
    then have "scan_bitmaps (m # ms) p i = i + int 0 \<and> bit ((m # ms) ! 0) (go_uint p)
        \<and> (\<forall>j<0. \<not> bit ((m # ms) ! j) (go_uint p))"
      by (simp add: GetBit_bit)
    then show ?thesis by (metis length_greater_0_conv list.discI)
  next
    case False
    note nb = this
    show ?thesis
    proof (cases "\<exists>k<length ms. bit (ms ! k) (go_uint p)")
      case True
      with Cons.IH [of "i + 1"] obtain k where k: "k < length ms"
        "scan_bitmaps ms p (i + 1) = i + 1 + int k" "bit (ms ! k) (go_uint p)"
        "\<forall>j<k. \<not> bit (ms ! j) (go_uint p)"
        by auto
      from k nb have "Suc k < length (m # ms) \<and> scan_bitmaps (m # ms) p i = i + int (Suc k)
          \<and> bit ((m # ms) ! Suc k) (go_uint p) \<and> (\<forall>j<Suc k. \<not> bit ((m # ms) ! j) (go_uint p))"
        by (auto simp add: GetBit_bit less_Suc_eq_0_disj)
      then show ?thesis by (meson)
    next
      case False
      with Cons.IH [of "i + 1"] have "scan_bitmaps ms p (i + 1) = - 1" by simp
      moreover from False nb have "\<not> (\<exists>k<length (m # ms). bit ((m # ms) ! k) (go_uint p))"
        by (auto simp add: nth_Cons split: nat.splits)
      ultimately show ?thesis using nb
        by (simp only: if_False scan_bitmaps.simps GetBit_bit) simp
    qed
  qed
qed

text \<open>
  C7. On a board whose \<open>Occupied\<close> is the union of its bitmaps, at a position \<open>p\<close> in
  \<open>[0, Ranks * Files)\<close>: when some bitmap has bit \<open>p\<close> set, \<open>GetBitmapIndex\<close> returns the
  smallest index of such a bitmap; when none has, it returns \<open>-1\<close>.
\<close>

theorem GetBitmapIndex_first_match:
  assumes "Occupied b = Union_uint64 (Bitmaps b)"
    and "0 \<le> p" and "p < wrap_int (Ranks b * Files b)"
  shows "(if \<exists>i<length (Bitmaps b). bit (Bitmaps b ! i) (nat p)
          then \<exists>i<length (Bitmaps b). GetBitmapIndex b p = int i \<and> bit (Bitmaps b ! i) (nat p)
                 \<and> (\<forall>j<i. \<not> bit (Bitmaps b ! j) (nat p))
          else GetBitmapIndex b p = - 1)"
proof -
  from assms(3) wrap_int_less [of "Ranks b * Files b"] have "p < 2 ^ 63" by simp
  with assms(2) have u: "go_uint p = nat p" by (rule go_uint_nat)
  show ?thesis
  proof (cases "\<exists>i<length (Bitmaps b). bit (Bitmaps b ! i) (nat p)")
    case True
    with assms(1) have "GetBit (Occupied b) p \<noteq> 0"
      by (simp add: GetBit_bit u bit_Union_uint64)
    then have "GetBitmapIndex b p = scan_bitmaps (Bitmaps b) p 0"
      by (simp add: GetBitmapIndex_def)
    with scan_bitmaps_first [of "Bitmaps b" p 0] True show ?thesis
      by (simp add: u)
  next
    case False
    with assms(1) have "GetBit (Occupied b) p = 0"
      by (simp add: GetBit_bit u bit_Union_uint64)
    with False show ?thesis
      by (simp add: GetBitmapIndex_def)
  qed
qed

theorem GetBitmapIndex_first_match_witness:
  "Occupied NewChessBoard = Union_uint64 (Bitmaps NewChessBoard)
   \<and> (0::int) \<le> 12 \<and> 12 < wrap_int (Ranks NewChessBoard * Files NewChessBoard)
   \<and> GetBitmapIndex NewChessBoard 12 = 5
   \<and> (if \<exists>i<length (Bitmaps NewChessBoard). bit (Bitmaps NewChessBoard ! i) (nat 12)
       then \<exists>i<length (Bitmaps NewChessBoard). GetBitmapIndex NewChessBoard 12 = int i
              \<and> bit (Bitmaps NewChessBoard ! i) (nat 12)
              \<and> (\<forall>j<i. \<not> bit (Bitmaps NewChessBoard ! j) (nat 12))
       else GetBitmapIndex NewChessBoard 12 = - 1)"
proof -
  have h1: "Occupied NewChessBoard = Union_uint64 (Bitmaps NewChessBoard)"
    by (simp add: NewChessBoard_def Let_def)
  have h2: "(0::int) \<le> 12"
    by simp
  have h3: "12 < wrap_int (Ranks NewChessBoard * Files NewChessBoard)"
    by (simp add: NewChessBoard_def Let_def wrap_int_def)
  have v: "GetBitmapIndex NewChessBoard 12 = 5"
    by (simp add: GetBitmapIndex_def GetBit_def go_int_def go_uint_def NewChessBoard_def
        Union_uint64_def Let_def)
  show ?thesis
    using h1 h2 h3 v GetBitmapIndex_first_match [OF h1 h2 h3] by blast
qed

section \<open>Occupied as the union of the bitmaps\<close>

lemma bit_SetBit: "bit (SetBit w p) n \<longleftrightarrow> bit w n \<or> (n = go_uint p \<and> n < 64)"
  by (auto simp add: SetBit_def bit_simps)

lemma bit_ClearBit: "bit (ClearBit w p) n \<longleftrightarrow> bit w n \<and> n \<noteq> go_uint p"
  by (auto simp add: ClearBit_def bit_simps dest: bit_imp_le_length)

lemma Union_SetBit:
  assumes "k < length xs"
  shows "Union_uint64 (xs[k := SetBit (xs ! k) p]) = SetBit (Union_uint64 xs) p"
proof (rule bit_word_eqI)
  fix n
  show "bit (Union_uint64 (xs[k := SetBit (xs ! k) p])) n = bit (SetBit (Union_uint64 xs) p) n"
    using assms by (auto simp add: bit_Union_uint64 bit_SetBit nth_list_update)
qed

lemma Union_ClearBit:
  assumes "k < length xs" and "\<forall>j<length xs. j \<noteq> k \<longrightarrow> \<not> bit (xs ! j) (go_uint p)"
  shows "Union_uint64 (xs[k := ClearBit (xs ! k) p]) = ClearBit (Union_uint64 xs) p"
proof (rule bit_word_eqI)
  fix n
  show "bit (Union_uint64 (xs[k := ClearBit (xs ! k) p])) n = bit (ClearBit (Union_uint64 xs) p) n"
    using assms by (auto simp add: bit_Union_uint64 bit_ClearBit nth_list_update)
qed

lemma held_by_other_iff:
  "held_by_other b m p \<longleftrightarrow>
    (\<exists>j<length (Bitmaps b). int j \<noteq> m \<and> bit (Bitmaps b ! j) (go_uint p))"
  by (force simp add: held_by_other_def list_ex_iff in_set_enumerate_eq GetBit_bit)

lemma PlacePieceBit_union:
  assumes "Occupied b = Union_uint64 (Bitmaps b)" and "PlacePieceBit b m p = Inr b'"
  shows "Occupied b' = Union_uint64 (Bitmaps b')"
proof -
  from assms(2) have m: "0 \<le> m" "nat m < length (Bitmaps b)"
    by (auto simp add: PlacePieceBit_def Let_def split: if_splits)
  from assms(2) m have "Occupied b' = SetBit (Occupied b) p"
    and "Bitmaps b' = (Bitmaps b)[nat m := SetBit (Bitmaps b ! nat m) p]"
    by (auto simp add: PlacePieceBit_def Let_def split: if_splits)
  with assms(1) m(2) show ?thesis
    by (simp add: Union_SetBit)
qed

lemma RemovePieceBit_union:
  assumes "Occupied b = Union_uint64 (Bitmaps b)" and "RemovePieceBit b m p = Inr b'"
    and "\<not> held_by_other b m p"
  shows "Occupied b' = Union_uint64 (Bitmaps b')"
proof -
  from assms(2) have m: "0 \<le> m" "nat m < length (Bitmaps b)"
    by (auto simp add: RemovePieceBit_def Let_def split: if_splits)
  from assms(2) m have b': "Occupied b' = ClearBit (Occupied b) p"
    "Bitmaps b' = (Bitmaps b)[nat m := ClearBit (Bitmaps b ! nat m) p]"
    by (auto simp add: RemovePieceBit_def Let_def split: if_splits)
  from assms(3) m(1)
  have "\<forall>j<length (Bitmaps b). j \<noteq> nat m \<longrightarrow> \<not> bit (Bitmaps b ! j) (go_uint p)"
    by (auto simp add: held_by_other_iff)
  with m(2) have "Union_uint64 ((Bitmaps b)[nat m := ClearBit (Bitmaps b ! nat m) p])
      = ClearBit (Union_uint64 (Bitmaps b)) p"
    by (rule Union_ClearBit)
  with assms(1) b' show ?thesis
    by simp
qed

lemma MovePieceBit_union:
  assumes "Occupied b = Union_uint64 (Bitmaps b)" and "MovePieceBit b m p1 p2 = Inr b'"
    and "\<not> held_by_other b m p1"
  shows "Occupied b' = Union_uint64 (Bitmaps b')"
proof -
  from assms(2) obtain b1 where b1: "RemovePieceBit b m p1 = Inr b1" "PlacePieceBit b1 m p2 = Inr b'"
    by (auto simp add: MovePieceBit_def split: sum.splits)
  from assms(1) b1(1) assms(3) have "Occupied b1 = Union_uint64 (Bitmaps b1)"
    by (rule RemovePieceBit_union)
  then show ?thesis using b1(2) by (rule PlacePieceBit_union)
qed

lemma preset_union:
  "Occupied NewChessBoard = Union_uint64 (Bitmaps NewChessBoard)"
  "Occupied NewCheckersBoard = Union_uint64 (Bitmaps NewCheckersBoard)"
  "Occupied NewOthelloBoard = Union_uint64 (Bitmaps NewOthelloBoard)"
  "Occupied NewReversiBoard = Union_uint64 (Bitmaps NewReversiBoard)"
  "Occupied NewTicTacToeBoard = Union_uint64 (Bitmaps NewTicTacToeBoard)"
  "Occupied NewConnectFourBoard = Union_uint64 (Bitmaps NewConnectFourBoard)"
  by (simp_all add: NewChessBoard_def NewCheckersBoard_def NewOthelloBoard_def
      NewReversiBoard_def NewTicTacToeBoard_def NewConnectFourBoard_def Let_def)

text \<open>
  C1, as stated, fails: removing category 0 (white rooks) at square 8 of the chess
  preset, where category 5 (white pawns) stands, clears bit 8 of \<open>Occupied\<close> and leaves
  it set in the pawns' bitmap.
\<close>

theorem occupied_union_counterexample:
  "in_range NewChessBoard 8
   \<and> \<not> isl (RemovePieceBit NewChessBoard 0 8)
   \<and> reachable (projr (RemovePieceBit NewChessBoard 0 8))
   \<and> Occupied (projr (RemovePieceBit NewChessBoard 0 8)) = 0xFFFF00000000FEFF
   \<and> Union_uint64 (Bitmaps (projr (RemovePieceBit NewChessBoard 0 8))) = 0xFFFF00000000FFFF"
proof -
  have r: "in_range NewChessBoard 8"
    by (simp add: in_range_def NewChessBoard_def Let_def wrap_int_def)
  have e: "RemovePieceBit NewChessBoard 0 8 = Inr (projr (RemovePieceBit NewChessBoard 0 8))"
    by (simp add: RemovePieceBit_def NewChessBoard_def Let_def)
  have "reachable (projr (RemovePieceBit NewChessBoard 0 8))"
    using reachable.chess r e by (rule reachable.remove)
  moreover have "\<not> isl (RemovePieceBit NewChessBoard 0 8)"
    by (simp add: RemovePieceBit_def NewChessBoard_def Let_def)
  moreover have "Occupied (projr (RemovePieceBit NewChessBoard 0 8)) = 0xFFFF00000000FEFF"
    by (simp add: RemovePieceBit_def NewChessBoard_def Let_def Union_uint64_def
        ClearBit_def go_uint_def)
  moreover have "Union_uint64 (Bitmaps (projr (RemovePieceBit NewChessBoard 0 8)))
      = 0xFFFF00000000FFFF"
    by (simp add: RemovePieceBit_def NewChessBoard_def Let_def Union_uint64_def
        ClearBit_def go_uint_def)
  ultimately show ?thesis
    using r by blast
qed

text \<open>
  C1, amended. Along every sequence of \<open>PlacePieceBit\<close>, \<open>RemovePieceBit\<close> and
  \<open>MovePieceBit\<close> calls from a preset, at in-range positions, in which no removal
  (alone or as the first half of a move) targets a square held by another category,
  \<open>Occupied\<close> equals the union of the bitmaps after every call.
\<close>

theorem reachable_own_occupied_union:
  "reachable_own b \<Longrightarrow> Occupied b = Union_uint64 (Bitmaps b)"
proof (induction rule: reachable_own.induct)
  case (place b p m b')
  then show ?case by (blast intro: PlacePieceBit_union)
next
  case (remove b p m b')
  then show ?case by (blast intro: RemovePieceBit_union)
next
  case (move b p1 p2 m b')
  then show ?case by (blast intro: MovePieceBit_union)
qed (rule preset_union)+

theorem reachable_own_occupied_union_witness:
  "reachable_own (projr (MovePieceBit NewChessBoard 5 12 28))
   \<and> Occupied (projr (MovePieceBit NewChessBoard 5 12 28))
       = Union_uint64 (Bitmaps (projr (MovePieceBit NewChessBoard 5 12 28)))"
proof -
  have r1: "in_range NewChessBoard 12" and r2: "in_range NewChessBoard 28"
    by (simp_all add: in_range_def NewChessBoard_def Let_def wrap_int_def)
  have g: "\<not> held_by_other NewChessBoard 5 12"
    by (simp add: held_by_other_def NewChessBoard_def Let_def GetBit_def go_int_def go_uint_def)
  have e: "MovePieceBit NewChessBoard 5 12 28 = Inr (projr (MovePieceBit NewChessBoard 5 12 28))"
    by (simp add: MovePieceBit_def RemovePieceBit_def PlacePieceBit_def NewChessBoard_def Let_def)
  have h: "reachable_own (projr (MovePieceBit NewChessBoard 5 12 28))"
    using reachable_own.chess r1 r2 g e by (rule reachable_own.move)
  with reachable_own_occupied_union [OF h] show ?thesis
    by simp
qed

section \<open>Coordinate conversions\<close>

lemma wrap_int_id: "is_int v \<Longrightarrow> wrap_int v = v"
  unfolding wrap_int_def is_int_def by (simp add: signed_take_bit_int_eq_self)

lemma is_int_small: "0 \<le> v \<Longrightarrow> v < 64 \<Longrightarrow> is_int v"
  by (simp add: is_int_def)

lemma sdiv_smod_nonneg:
  fixes a b :: int
  assumes "0 \<le> a" and "0 < b"
  shows "a sdiv b = a div b" and "a smod b = a mod b"
  using assms by (cases "a = 0"; simp add: signed_divide_int_def signed_modulo_int_def)+

lemma BitToCartesian_CartesianToBit:
  assumes "0 < files" and "0 \<le> x" and "x < files" and "0 \<le> y" and "y * files + x < 64"
  shows "BitToCartesian (CartesianToBit x y files) files = Inr (x, y)"
proof -
  from assms have yf0: "0 \<le> y * files"
    by simp
  with assms have yf1: "y * files < 64" and x64: "x < 64"
    by linarith+
  from assms have "y * 1 \<le> y * files"
    by (intro mult_left_mono) simp_all
  with yf1 have y64: "y < 64"
    by simp
  from assms yf0 have nn: "0 \<le> y * files + x"
    by linarith
  from yf0 yf1 have "is_int (y * files)"
    by (rule is_int_small)
  then have "wrap_int (y * files) = y * files"
    by (rule wrap_int_id)
  moreover from nn assms(5) have "is_int (y * files + x)"
    by (rule is_int_small)
  then have "wrap_int (y * files + x) = y * files + x"
    by (rule wrap_int_id)
  ultimately have c: "CartesianToBit x y files = y * files + x"
    by (simp add: CartesianToBit_def)
  from assms have d: "(y * files + x) div files = y" and m: "(y * files + x) mod files = x"
    by simp_all
  from assms x64 y64 have "is_int x" "is_int y"
    by (simp_all add: is_int_small)
  then show ?thesis
    unfolding c BitToCartesian_def Let_def sdiv_smod_nonneg [OF nn assms(1)] d m
    using assms(1) by (simp add: wrap_int_id)
qed

lemma string_of_byte_single:
  "string_of_byte c = [d] \<longleftrightarrow> c = d \<and> (of_char c :: nat) < 128"
  by (auto simp add: string_of_byte_def Let_def)

lemma is_digit_iff: "is_digit c \<longleftrightarrow> c \<in> set ''0123456789''"
proof -
  have "c \<in> set ''0123456789'' \<longleftrightarrow>
    (of_char c :: nat) \<in> {48, 49, 50, 51, 52, 53, 54, 55, 56, 57}"
    by (simp add: of_char_eq_iff [where ?'a = nat, symmetric])
  also have "\<dots> \<longleftrightarrow> 48 \<le> (of_char c :: nat) \<and> (of_char c :: nat) \<le> 57"
    by simp arith
  finally show ?thesis
    by (simp add: is_digit_def)
qed

lemma Atoi_non_digit:
  assumes "\<not> is_digit c"
  shows "Atoi (string_of_byte c) = (0, Some ErrSyntax)"
proof (cases "(of_char c :: nat) < 128")
  case True
  then have "string_of_byte c = [c]"
    by (simp add: string_of_byte_def)
  with assms show ?thesis
    by (simp add: Atoi_def Let_def)
next
  case False
  define n where "n = (of_char c :: nat)"
  define c1 where "c1 = char_of (192 + n div 64)"
  define c2 where "c2 = char_of (128 + n mod 64)"
  have "n < 256"
    unfolding n_def by simp
  then have "192 + n div 64 < 256"
    by simp
  then have o: "(of_char c1 :: nat) = 192 + n div 64"
    unfolding c1_def by simp
  from o have "\<not> is_digit c1"
    by (simp add: is_digit_def)
  moreover from o have "c1 \<noteq> CHR ''+''" "c1 \<noteq> CHR ''-''"
    by auto
  moreover from False have "string_of_byte c = [c1, c2]"
    by (simp add: string_of_byte_def Let_def c1_def c2_def n_def)
  ultimately show ?thesis
    by (simp add: Atoi_def Let_def)
qed

lemma Atoi_digit:
  assumes "is_digit c"
  shows "Atoi (string_of_byte c) = (digit_val c, None)"
proof -
  from assms have r: "48 \<le> (of_char c :: nat)" "(of_char c :: nat) \<le> 57"
    by (simp_all add: is_digit_def)
  then have "string_of_byte c = [c]"
    by (simp add: string_of_byte_def)
  moreover from r have "c \<noteq> CHR ''+''" "c \<noteq> CHR ''-''"
    by auto
  moreover from r have "0 \<le> digit_val c" "digit_val c \<le> 9"
    by (simp_all add: digit_val_def)
  ultimately show ?thesis
    using assms by (simp add: Atoi_def Let_def)
qed

lemma file_non_letter:
  assumes "c \<notin> set ''abcdefgh''"
  shows "foldl (\<lambda>x (i, v). if string_of_byte c = v then int i else x) 0 (enumerate 0 symbols) = 0"
  using assms by (simp add: symbols_def string_of_byte_single)

lemma file_letter:
  assumes "k < 8"
  shows "length (symbols ! k) = 1
    \<and> foldl (\<lambda>x (i, v). if string_of_byte (symbols ! k ! 0) = v then int i else x) 0
        (enumerate 0 symbols) = int k"
proof -
  from assms have "k = 0 \<or> k = 1 \<or> k = 2 \<or> k = 3 \<or> k = 4 \<or> k = 5 \<or> k = 6 \<or> k = 7"
    by arith
  then show ?thesis
    by (elim disjE; simp add: symbols_def string_of_byte_single)
qed

lemma digit_round:
  assumes "k < 10"
  shows "Atoi (string_of_byte (''0123456789'' ! k)) = (int k, None)"
proof -
  from assms have "k = 0 \<or> k = 1 \<or> k = 2 \<or> k = 3 \<or> k = 4 \<or> k = 5 \<or> k = 6 \<or> k = 7
      \<or> k = 8 \<or> k = 9"
    by arith
  then show ?thesis
    by (elim disjE; simp add: Atoi_def Let_def string_of_byte_def is_digit_def digit_val_def)
qed

text \<open>
  C10. For every input of two characters (at least two bytes: Go indexes the bytes of a
  string), \<open>AlgebraicToCartesian\<close> returns a pair and never fails: \<open>x = 0\<close> when the
  first byte is not one of \<open>a\<close> to \<open>h\<close>, \<open>y = -1\<close> when the second byte is not a decimal
  digit (the error of \<^verbatim>\<open>Atoi\<close> is dropped), and the result does not depend on
  \<open>files\<close>.
\<close>

theorem AlgebraicToCartesian_total:
  assumes "2 \<le> length p"
  shows "\<exists>x y. AlgebraicToCartesian p files = Inr (x, y)
    \<and> (p ! 0 \<notin> set ''abcdefgh'' \<longrightarrow> x = 0)
    \<and> (p ! 1 \<notin> set ''0123456789'' \<longrightarrow> y = - 1)
    \<and> AlgebraicToCartesian p files' = Inr (x, y)"
proof -
  define x where "x = foldl (\<lambda>x (i, v). if string_of_byte (p ! 0) = v then int i else x) 0
      (enumerate 0 symbols)"
  define y where "y = wrap_int (fst (Atoi (string_of_byte (p ! 1))) - 1)"
  from assms have r: "AlgebraicToCartesian p f = Inr (x, y)" for f
    by (simp add: AlgebraicToCartesian_def Let_def x_def y_def)
  have "x = 0" if "p ! 0 \<notin> set ''abcdefgh''"
    unfolding x_def using that by (rule file_non_letter)
  moreover have "y = - 1" if "p ! 1 \<notin> set ''0123456789''"
  proof -
    from that have "\<not> is_digit (p ! 1)"
      by (simp only: is_digit_iff not_False_eq_True)
    then have "Atoi (string_of_byte (p ! 1)) = (0, Some ErrSyntax)"
      by (rule Atoi_non_digit)
    then show ?thesis
      by (simp add: y_def wrap_int_def)
  qed
  ultimately show ?thesis
    using r [of files] r [of files'] by blast
qed

theorem AlgebraicToCartesian_total_witness:
  "2 \<le> length ''zx''
   \<and> ''zx'' ! 0 \<notin> set ''abcdefgh'' \<and> ''zx'' ! 1 \<notin> set ''0123456789''
   \<and> AlgebraicToCartesian ''zx'' 8 = Inr (0, - 1)
   \<and> AlgebraicToCartesian ''zx'' 3 = Inr (0, - 1)"
proof -
  have h: "2 \<le> length ''zx''"
    by simp
  have n: "''zx'' ! 0 \<notin> set ''abcdefgh''" "''zx'' ! 1 \<notin> set ''0123456789''"
    by simp_all
  from h n AlgebraicToCartesian_total [OF h, of 8 3] show ?thesis
    by auto
qed

lemma CartesianToAlgebraic_single_digit:
  assumes "0 \<le> x" and "x < 8" and "0 \<le> y" and "y < 9"
  shows "CartesianToAlgebraic x y files = Inr (symbols ! nat x @ [''0123456789'' ! nat (y + 1)])"
proof -
  from assms have "is_int (y + 1)"
    by (intro is_int_small) simp_all
  then have "wrap_int (y + 1) = y + 1"
    by (rule wrap_int_id)
  moreover from assms have "digits (nat (y + 1)) = [''0123456789'' ! nat (y + 1)]"
    by (subst digits.simps) simp
  ultimately show ?thesis
    using assms by (simp add: CartesianToAlgebraic_def format_int_def symbols_def)
qed

lemma algebraic_round_trip:
  assumes "0 \<le> x" and "x < 8" and "0 \<le> y" and "y < 9"
  shows "AlgebraicToCartesian (symbols ! nat x @ [''0123456789'' ! nat (y + 1)]) files = Inr (x, y)"
proof -
  define s where "s = symbols ! nat x @ [''0123456789'' ! nat (y + 1)]"
  from assms have k: "nat x < 8"
    by simp
  from file_letter [OF k] have l: "length (symbols ! nat x) = 1"
    and f: "foldl (\<lambda>x' (i, v). if string_of_byte (symbols ! nat x ! 0) = v then int i else x') 0
        (enumerate 0 symbols) = int (nat x)"
    by simp_all
  from l have s0: "s ! 0 = symbols ! nat x ! 0" and s1: "s ! 1 = ''0123456789'' ! nat (y + 1)"
    and len: "length s = 2"
    by (simp_all add: s_def nth_append)
  from assms have "nat (y + 1) < 10"
    by simp
  then have "Atoi (string_of_byte (s ! 1)) = (int (nat (y + 1)), None)"
    unfolding s1 by (rule digit_round)
  with assms have a: "fst (Atoi (string_of_byte (s ! 1))) - 1 = y"
    by simp
  from assms have "is_int y"
    by (intro is_int_small) simp_all
  then have "wrap_int y = y"
    by (rule wrap_int_id)
  with a f s0 len assms show ?thesis
    unfolding s_def [symmetric] by (simp add: AlgebraicToCartesian_def Let_def)
qed

text \<open>
  C2, as stated, fails for the algebraic round trip: with \<open>files = 3\<close> the pair
  \<open>(0, 9)\<close> is valid (bit 27), its algebraic form is \<open>a10\<close>, and reading it back takes
  the single rank digit \<open>1\<close> and returns \<open>(0, 0)\<close>.
\<close>

theorem algebraic_round_trip_counterexample:
  "(3::int) \<in> {3, 7, 8} \<and> (0::int) \<le> 0 \<and> (0::int) < 3 \<and> (0::int) \<le> 9 \<and> (9::int) * 3 + 0 < 64
   \<and> CartesianToAlgebraic 0 9 3 = Inr ''a10''
   \<and> AlgebraicToCartesian ''a10'' 3 = Inr (0, 0)"
  by (simp add: CartesianToAlgebraic_def AlgebraicToCartesian_def symbols_def format_int_def
      wrap_int_def digits.simps Let_def string_of_byte_def Atoi_def is_digit_def digit_val_def)

text \<open>
  C2, amended. For \<open>files\<close> in \<open>{3, 7, 8}\<close> and every pair with \<open>0 \<le> x < files\<close>,
  \<open>0 \<le> y\<close> and \<open>y * files + x < 64\<close>, \<open>BitToCartesian\<close> undoes \<open>CartesianToBit\<close>; and
  when moreover \<open>y < 9\<close>, so that the rank \<open>y + 1\<close> is a single digit,
  \<open>AlgebraicToCartesian\<close> undoes \<open>CartesianToAlgebraic\<close>.
\<close>

theorem coordinate_round_trips:
  assumes "files \<in> {3, 7, 8}" and "0 \<le> x" and "x < files" and "0 \<le> y"
    and "y * files + x < 64"
  shows "BitToCartesian (CartesianToBit x y files) files = Inr (x, y)
    \<and> (y < 9 \<longrightarrow> (\<exists>s. CartesianToAlgebraic x y files = Inr s
          \<and> AlgebraicToCartesian s files = Inr (x, y)))"
proof -
  from assms(1) have f: "0 < files" "files \<le> 8"
    by auto
  from f(1) assms(2-5) have "BitToCartesian (CartesianToBit x y files) files = Inr (x, y)"
    by (rule BitToCartesian_CartesianToBit)
  moreover from f assms(3) have "x < 8"
    by simp
  ultimately show ?thesis
    using assms(2,4) CartesianToAlgebraic_single_digit [of x y files]
      algebraic_round_trip [of x y files]
    by auto
qed

theorem coordinate_round_trips_witness:
  "(8::int) \<in> {3, 7, 8} \<and> (0::int) \<le> 4 \<and> (4::int) < 8 \<and> (0::int) \<le> 3 \<and> (3::int) * 8 + 4 < 64
   \<and> (3::int) < 9
   \<and> BitToCartesian (CartesianToBit 4 3 8) 8 = Inr (4, 3)
   \<and> CartesianToAlgebraic 4 3 8 = Inr ''e4''
   \<and> AlgebraicToCartesian ''e4'' 8 = Inr (4, 3)"
proof -
  have h1: "(8::int) \<in> {3, 7, 8}" and h2: "(0::int) \<le> 4" and h3: "(4::int) < 8"
    and h4: "(0::int) \<le> 3" and h5: "(3::int) * 8 + 4 < 64"
    by simp_all
  have e: "CartesianToAlgebraic 4 3 8 = Inr ''e4''"
    by (simp add: CartesianToAlgebraic_def symbols_def format_int_def wrap_int_def digits.simps)
  from coordinate_round_trips [OF h1 h2 h3 h4 h5] e h1 h2 h3 h4 h5 show ?thesis
    by auto
qed

section \<open>Flips and rotations of the 8x8 grid\<close>

lemma lt8_cases:
  "(x::nat) < 8 \<Longrightarrow> x = 0 \<or> x = 1 \<or> x = 2 \<or> x = 3 \<or> x = 4 \<or> x = 5 \<or> x = 6 \<or> x = 7"
  by arith

lemma mask_swap_bit:
  assumes "k AND push_bit s k = 0"
  shows "bit (mask_swap k s w) n =
    (if bit k n then bit w (n + s) else s \<le> n \<and> n < 64 \<and> bit k (n - s) \<and> bit w (n - s))"
proof -
  have a: "\<not> bit k (m + s)" if "bit k m" for m
  proof
    assume "bit k (m + s)"
    moreover from this have "m + s < 64"
      by (auto dest: bit_imp_le_length)
    ultimately have "bit (k AND push_bit s k) (m + s)"
      using that by (simp add: bit_simps)
    with assms show False by simp
  qed
  show ?thesis
  proof (cases "bit k n")
    case True
    have "\<not> (s \<le> n \<and> bit k (n - s))"
    proof
      assume "s \<le> n \<and> bit k (n - s)"
      with a [of "n - s"] True show False by simp
    qed
    with True show ?thesis
      by (auto simp add: mask_swap_def bit_simps ac_simps)
  next
    case False
    then show ?thesis
      by (auto simp add: mask_swap_def bit_simps ac_simps dest: bit_imp_le_length)
  qed
qed

lemma half_swap_bit:
  "bit (drop_bit 32 w OR push_bit 32 w) n = (if n < 32 then bit w (n + 32) else n < 64 \<and> bit w (n - 32))"
    for w :: uint64
proof -
  have "m < 64" if "bit w m" for m
    using that by (auto dest: bit_imp_le_length)
  from this [of "n - 32"] this [of "n + 32"] show ?thesis
    by (auto simp add: bit_simps ac_simps)
qed

lemma delta_swap_bit:
  assumes lo: "take_bit s k = 0" and dis: "k AND drop_bit s k = 0"
  shows "bit (delta_swap k s w) n =
    (if bit k n then bit w (n - s) else if bit k (n + s) then bit w (n + s) else bit w n)"
proof -
  have a: "s \<le> m" if "bit k m" for m
  proof (rule ccontr)
    assume "\<not> s \<le> m"
    with that have "bit (take_bit s k) m" by (simp add: bit_simps)
    with lo show False by simp
  qed
  have b: "\<not> bit k (m + s)" if "bit k m" for m
  proof
    assume "bit k (m + s)"
    with that have "bit (k AND drop_bit s k) m" by (simp add: bit_simps ac_simps)
    with dis show False by simp
  qed
  have c: "m < 64" if "bit k m" for m
    using that by (auto dest: bit_imp_le_length)
  show ?thesis
    using a [of n] a [of "n + s"] b [of n] c [of n] c [of "n + s"]
    by (auto simp add: delta_swap_def Let_def bit_simps ac_simps)
qed

lemmas mask_swap_8 = mask_swap_bit [of "0x00FF00FF00FF00FF" 8, simplified]
lemmas mask_swap_16 = mask_swap_bit [of "0x0000FFFF0000FFFF" 16, simplified]
lemmas mask_swap_1 = mask_swap_bit [of "0x5555555555555555" 1, simplified]
lemmas mask_swap_2 = mask_swap_bit [of "0x3333333333333333" 2, simplified]
lemmas mask_swap_4 = mask_swap_bit [of "0x0f0f0f0f0f0f0f0f" 4, simplified]
lemmas delta_swap_28 = delta_swap_bit [of 28 "0x0f0f0f0f00000000", simplified]
lemmas delta_swap_14 = delta_swap_bit [of 14 "0x3333000033330000", simplified]
lemmas delta_swap_7 = delta_swap_bit [of 7 "0x5500550055005500", simplified]

lemma FlipVertical_stages:
  "FlipVertical i =
    (let i2 = mask_swap 0x0000FFFF0000FFFF 16 (mask_swap 0x00FF00FF00FF00FF 8 i)
     in drop_bit 32 i2 OR push_bit 32 i2)"
  by (simp only: FlipVertical_def mask_swap_def Let_def)

lemma FlipVertical_bit:
  "x < 8 \<Longrightarrow> y < 8 \<Longrightarrow> bit (FlipVertical b) (8 * y + x) = bit b (8 * (7 - y) + x)"
  apply (drule lt8_cases, drule lt8_cases)
  apply (elim disjE;
      simp add: FlipVertical_stages Let_def half_swap_bit mask_swap_8 mask_swap_16;
      simp only: numeral_2_eq_2 numeral_3_eq_3)
  done

lemma swap_add_or:
  fixes x y k :: uint64
  assumes "k AND push_bit s k = 0"
  shows "(x AND k) + push_bit s (y AND k) = (x AND k) OR push_bit s (y AND k)"
proof (rule disjunctive_add_eq_or)
  have "(x AND k) AND push_bit s (y AND k) = (x AND push_bit s y) AND (k AND push_bit s k)"
    by (simp add: push_bit_and ac_simps)
  then show "(x AND k) AND push_bit s (y AND k) = 0"
    using assms by simp
qed

lemma mult_push_bit:
  "2 * w = push_bit 1 w" "4 * w = push_bit 2 w" "16 * w = push_bit 4 w" for w :: uint64
  by (simp_all add: push_bit_eq_mult)

lemma FlipHorizontal_stages:
  "FlipHorizontal i =
    mask_swap 0x0f0f0f0f0f0f0f0f 4 (mask_swap 0x3333333333333333 2
      (mask_swap 0x5555555555555555 1 i))"
proof -
  have a: "(x AND 0x5555555555555555) + 2 * (y AND 0x5555555555555555)
      = (x AND 0x5555555555555555) OR push_bit 1 (y AND 0x5555555555555555)" for x y :: uint64
    unfolding mult_push_bit by (rule swap_add_or) simp
  have b: "(x AND 0x3333333333333333) + 4 * (y AND 0x3333333333333333)
      = (x AND 0x3333333333333333) OR push_bit 2 (y AND 0x3333333333333333)" for x y :: uint64
    unfolding mult_push_bit by (rule swap_add_or) simp
  have c: "(x AND 0x0f0f0f0f0f0f0f0f) + 16 * (y AND 0x0f0f0f0f0f0f0f0f)
      = (x AND 0x0f0f0f0f0f0f0f0f) OR push_bit 4 (y AND 0x0f0f0f0f0f0f0f0f)" for x y :: uint64
    unfolding mult_push_bit by (rule swap_add_or) simp
  show ?thesis
    unfolding FlipHorizontal_def Let_def a b c mask_swap_def ..
qed

lemma FlipHorizontal_bit:
  "x < 8 \<Longrightarrow> y < 8 \<Longrightarrow> bit (FlipHorizontal b) (8 * y + x) = bit b (8 * y + (7 - x))"
  apply (drule lt8_cases, drule lt8_cases)
  apply (elim disjE;
      simp add: FlipHorizontal_stages mask_swap_1 mask_swap_2 mask_swap_4;
      simp only: numeral_2_eq_2 numeral_3_eq_3)
  done

lemma FlipDiagonalA1H8_stages:
  "FlipDiagonalA1H8 i =
    delta_swap 0x5500550055005500 7 (delta_swap 0x3333000033330000 14
      (delta_swap 0x0f0f0f0f00000000 28 i))"
  by (simp only: FlipDiagonalA1H8_def delta_swap_def Let_def)

lemma FlipDiagonalA1H8_bit:
  "x < 8 \<Longrightarrow> y < 8 \<Longrightarrow> bit (FlipDiagonalA1H8 b) (8 * y + x) = bit b (8 * x + y)"
  apply (drule lt8_cases, drule lt8_cases)
  apply (elim disjE;
      simp add: FlipDiagonalA1H8_stages delta_swap_28 delta_swap_14 delta_swap_7;
      simp only: numeral_2_eq_2 numeral_3_eq_3)
  done

text \<open>
  C8. On the 8x8 grid with bit index \<open>8 * y + x\<close>, for \<open>x\<close> and \<open>y\<close> below 8: bit
  \<open>8 * y + x\<close> of \<open>FlipVertical b\<close> is bit \<open>8 * (7 - y) + x\<close> of \<open>b\<close> (the ranks are
  mirrored), and bit \<open>8 * y + x\<close> of \<open>FlipHorizontal b\<close> is bit \<open>8 * y + (7 - x)\<close> of \<open>b\<close>
  (the files are mirrored within each rank).
\<close>

theorem flips_mirror_grid:
  assumes "x < 8" and "y < 8"
  shows "bit (FlipVertical b) (8 * y + x) = bit b (8 * (7 - y) + x)
    \<and> bit (FlipHorizontal b) (8 * y + x) = bit b (8 * y + (7 - x))"
  using assms by (simp add: FlipVertical_bit FlipHorizontal_bit)

theorem flips_mirror_grid_witness:
  "(3::nat) < 8 \<and> (1::nat) < 8
   \<and> bit (FlipVertical 0x0008000000000000) (8 * 1 + 3)
      = bit (0x0008000000000000 :: uint64) (8 * (7 - 1) + 3)
   \<and> bit (FlipHorizontal 0x0008000000000000) (8 * 1 + 3)
      = bit (0x0008000000000000 :: uint64) (8 * 1 + (7 - 3))"
proof -
  have h1: "(3::nat) < 8" and h2: "(1::nat) < 8"
    by simp_all
  from flips_mirror_grid [OF h1 h2, of "0x0008000000000000"] h1 h2 show ?thesis
    by (intro conjI) (erule conjunct1 conjunct2 | assumption)+
qed

lemma grid_eqI:
  fixes a b :: uint64
  assumes "\<And>x y. x < 8 \<Longrightarrow> y < 8 \<Longrightarrow> bit a (8 * y + x) = bit b (8 * y + x)"
  shows "a = b"
proof (rule bit_word_eqI)
  fix n
  assume "n < LENGTH(64)"
  then have "n mod 8 < 8" and "n div 8 < 8"
    by simp_all
  then have "bit a (8 * (n div 8) + n mod 8) = bit b (8 * (n div 8) + n mod 8)"
    by (rule assms)
  then show "bit a n = bit b n"
    by simp
qed

lemma Rotate90_bit:
  assumes "x < 8" and "y < 8"
  shows "bit (Rotate90 b) (8 * y + x) = bit b (8 * x + (7 - y))"
proof -
  from assms have "7 - y < 8"
    by simp
  with assms show ?thesis
    by (simp only: Rotate90_def FlipVertical_bit FlipDiagonalA1H8_bit)
qed

lemma Rotate180_bit:
  assumes "x < 8" and "y < 8"
  shows "bit (Rotate180 b) (8 * y + x) = bit b (8 * (7 - y) + (7 - x))"
proof -
  from assms have "7 - y < 8"
    by simp
  with assms show ?thesis
    by (simp only: Rotate180_def FlipVertical_bit FlipHorizontal_bit)
qed

text \<open>
  C4. For every board \<open>b\<close>: \<open>FlipVertical\<close>, \<open>FlipHorizontal\<close> and \<open>Rotate180\<close> are
  involutions, and \<open>Rotate90\<close> applied four times returns \<open>b\<close>.
\<close>

theorem flips_and_rotations_involutive:
  "FlipVertical (FlipVertical b) = b
   \<and> FlipHorizontal (FlipHorizontal b) = b
   \<and> Rotate180 (Rotate180 b) = b
   \<and> Rotate90 (Rotate90 (Rotate90 (Rotate90 b))) = b"
proof -
  have twice: "7 - (7 - k) = k" and low: "7 - k < 8" if "k < 8" for k :: nat
    using that by simp_all
  have "FlipVertical (FlipVertical b) = b"
  proof (rule grid_eqI)
    fix x y :: nat
    assume x: "x < 8" and y: "y < 8"
    show "bit (FlipVertical (FlipVertical b)) (8 * y + x) = bit b (8 * y + x)"
      by (simp only: FlipVertical_bit [OF x y] FlipVertical_bit [OF x low [OF y]] twice [OF y])
  qed
  moreover have "FlipHorizontal (FlipHorizontal b) = b"
  proof (rule grid_eqI)
    fix x y :: nat
    assume x: "x < 8" and y: "y < 8"
    show "bit (FlipHorizontal (FlipHorizontal b)) (8 * y + x) = bit b (8 * y + x)"
      by (simp only: FlipHorizontal_bit [OF x y] FlipHorizontal_bit [OF low [OF x] y]
          twice [OF x])
  qed
  moreover have "Rotate180 (Rotate180 b) = b"
  proof (rule grid_eqI)
    fix x y :: nat
    assume x: "x < 8" and y: "y < 8"
    show "bit (Rotate180 (Rotate180 b)) (8 * y + x) = bit b (8 * y + x)"
      by (simp only: Rotate180_bit [OF x y] Rotate180_bit [OF low [OF x] low [OF y]]
          twice [OF x] twice [OF y])
  qed
  moreover have "Rotate90 (Rotate90 (Rotate90 (Rotate90 b))) = b"
  proof (rule grid_eqI)
    fix x y :: nat
    assume x: "x < 8" and y: "y < 8"
    show "bit (Rotate90 (Rotate90 (Rotate90 (Rotate90 b)))) (8 * y + x) = bit b (8 * y + x)"
      by (simp only: Rotate90_bit [OF x y] Rotate90_bit [OF low [OF y] x]
          Rotate90_bit [OF low [OF x] low [OF y]] Rotate90_bit [OF y low [OF x]]
          twice [OF x] twice [OF y])
  qed
  ultimately show ?thesis
    by (intro conjI)
qed

section \<open>Population count\<close>

lemma bit_count_filter: "length (filter (bit x) [0..<k]) = bit_count k x"
proof (induction k arbitrary: x)
  case 0
  show ?case by simp
next
  case (Suc k)
  have "[0..<Suc k] = 0 # map Suc [0..<k]"
    by (simp add: upt_conv_Cons map_Suc_upt del: upt_Suc)
  then have "length (filter (bit x) [0..<Suc k])
      = of_bool (odd x) + length (filter (bit x \<circ> Suc) [0..<k])"
    by (simp add: filter_map bit_0 del: upt_Suc)
  also have "bit x \<circ> Suc = bit (x div 2)"
    by (simp add: fun_eq_iff bit_Suc)
  finally show ?case
    by (simp add: Suc.IH del: upt_Suc)
qed

lemma bit_count_le: "bit_count k x \<le> k"
  by (induction k arbitrary: x) (simp_all add: le_SucI add.commute Suc_le_mono trans_le_add2)

lemma bit_count_split: "bit_count (j + k) x = bit_count j x + bit_count k (x div 2 ^ j)"
proof (induction j arbitrary: x)
  case 0
  show ?case by simp
next
  case (Suc j)
  have "x div 2 div 2 ^ j = x div 2 ^ Suc j"
    by (simp add: div_mult2_eq)
  with Suc.IH [of "x div 2"] show ?case
    by simp
qed

lemma bit_imp_less:
  fixes a :: nat
  assumes "a < 2 ^ n" and "bit a m"
  shows "m < n"
proof -
  from assms(1) have "take_bit n a = a"
    by (rule take_bit_nat_eq_self)
  with assms(2) have "bit (take_bit n a) m"
    by simp
  then show ?thesis
    by (simp add: bit_take_bit_iff)
qed

lemma nat_concat_or:
  fixes a b :: nat
  assumes "a < 2 ^ n"
  shows "a + 2 ^ n * b = a OR push_bit n b"
proof -
  have "a AND push_bit n b = 0"
  proof (rule bit_eqI)
    fix m
    show "bit (a AND push_bit n b) m = bit (0::nat) m"
      using bit_imp_less [OF assms, of m] by (auto simp add: bit_simps)
  qed
  then have "a + push_bit n b = a OR push_bit n b"
    by (rule disjunctive_add_eq_or)
  then show ?thesis
    by (simp add: push_bit_eq_mult mult.commute)
qed

lemma bit_nat_concat:
  fixes a b :: nat
  assumes "a < 2 ^ n"
  shows "bit (a + 2 ^ n * b) m \<longleftrightarrow> (if m < n then bit a m else bit b (m - n))"
  using bit_imp_less [OF assms, of m]
  by (auto simp add: nat_concat_or [OF assms] bit_simps)

lemma and_nat_le: "a AND c \<le> a" for a c :: nat
proof -
  have "int (a AND c) \<le> int a"
    by (simp add: of_nat_and_eq)
  then show ?thesis
    by simp
qed

lemma and_concat:
  fixes a b c d :: nat
  assumes "a < 2 ^ n" and "c < 2 ^ n"
  shows "(a + 2 ^ n * b) AND (c + 2 ^ n * d) = (a AND c) + 2 ^ n * (b AND d)"
proof -
  have "a AND c \<le> a"
    by (rule and_nat_le)
  with assms(1) have ac: "a AND c < 2 ^ n"
    by simp
  show ?thesis
    by (rule bit_eqI)
      (simp add: bit_and_iff bit_nat_concat [OF assms(1)] bit_nat_concat [OF assms(2)]
        bit_nat_concat [OF ac])
qed

lemma and_low_mask:
  fixes a b d :: nat
  assumes "a < 2 ^ n" and "h \<le> n"
  shows "(a + 2 ^ n * b) AND ((2 ^ h - 1) + 2 ^ n * d) = a mod 2 ^ h + 2 ^ n * (b AND d)"
proof -
  have "(2::nat) ^ h - 1 < 2 ^ h"
    by simp
  also have "(2::nat) ^ h \<le> 2 ^ n"
    using assms(2) by simp
  finally have "(2::nat) ^ h - 1 < 2 ^ n" .
  with assms(1)
  have "(a + 2 ^ n * b) AND ((2 ^ h - 1) + 2 ^ n * d) = (a AND (2 ^ h - 1)) + 2 ^ n * (b AND d)"
    by (rule and_concat)
  also have "a AND (2 ^ h - 1) = a mod 2 ^ h"
    by (simp only: mask_eq_exp_minus_1 [symmetric] take_bit_eq_mask [symmetric] take_bit_eq_mod)
  finally show ?thesis .
qed

lemma and_low_1: "a < 4 \<Longrightarrow> (a + 4 * b) AND (1 + 4 * d) = a mod 2 + 4 * (b AND d)"
  for a b d :: nat
  using and_low_mask [of a 2 1 b d] by simp

lemma and_low_3: "a < 16 \<Longrightarrow> (a + 16 * b) AND (3 + 16 * d) = a mod 4 + 16 * (b AND d)"
  for a b d :: nat
  using and_low_mask [of a 4 2 b d] by simp

lemma and_low_15: "a < 256 \<Longrightarrow> (a + 256 * b) AND (15 + 256 * d) = a mod 16 + 256 * (b AND d)"
  for a b d :: nat
  using and_low_mask [of a 8 4 b d] by simp

lemma split_low: "x = x mod k + k * (x div k)" for x k :: nat
  by (simp only: mod_mult_div_eq)

lemma div_4: "x div 4 = x div 2 div 2" and div_16: "x div 16 = x div 4 div 4"
  and div_256: "x div 256 = x div 16 div 16" for x :: nat
  by (simp_all add: div_mult2_eq)

lemma bit_count_2: "bit_count 2 x = x mod 2 + x div 2 mod 2"
proof -
  have "bit_count 2 x = bit_count (Suc (Suc 0)) x"
    by (simp only: numeral_2_eq_2)
  also have "\<dots> = of_bool (odd x) + of_bool (odd (x div 2))"
    by simp
  finally show ?thesis
    by (simp only: mod_2_eq_odd)
qed

lemma pairs_step:
  assumes "x < 4 ^ n"
  shows "x - ((x div 2) AND repeat_mask 2 n 1) = field_counts 2 n x"
  using assms
proof (induction n arbitrary: x)
  case 0
  then show ?case by simp
next
  case (Suc n)
  define h where "h = x div 2"
  define q where "q = x div 4"
  define r0 where "r0 = x mod 2"
  define r1 where "r1 = h mod 2"
  define u where "u = q mod 2"
  define v where "v = q div 2"
  define M where "M = repeat_mask 2 n 1"
  define K where "K = v AND M"
  have x: "x = r0 + 2 * h"
    unfolding r0_def h_def by (rule split_low)
  have h: "h = r1 + 2 * q"
    unfolding r1_def q_def div_4 h_def by (rule split_low)
  have q: "q = u + 2 * v"
    unfolding u_def v_def by (rule split_low)
  have b: "r0 < 2" "r1 < 2" "u < 2"
    by (simp_all add: r0_def r1_def u_def)
  from Suc.prems have q4: "q < 4 ^ n"
    by (simp add: q_def less_mult_imp_div_less mult.commute)
  have h': "h = (r1 + 2 * u) + 4 * v"
    using h q by simp
  have low: "r1 + 2 * u < 4"
    using b by simp
  have "h AND repeat_mask 2 (Suc n) 1 = ((r1 + 2 * u) + 4 * v) AND (1 + 4 * M)"
    by (simp add: h' [symmetric] M_def)
  also have "\<dots> = (r1 + 2 * u) mod 2 + 4 * (v AND M)"
    using low by (rule and_low_1)
  also have "(r1 + 2 * u) mod 2 = r1"
    using b by simp
  finally have e: "h AND repeat_mask 2 (Suc n) 1 = r1 + 4 * K"
    by (simp only: K_def)
  have "K \<le> v"
    unfolding K_def by (rule and_nat_le)
  with q have le: "K \<le> q"
    by simp
  have IH: "q - K = field_counts 2 n q"
    unfolding K_def M_def v_def using q4 by (rule Suc.IH)
  have c: "bit_count 2 x = r0 + r1"
    by (simp only: bit_count_2 r0_def r1_def h_def)
  have "x - (h AND repeat_mask 2 (Suc n) 1) = (r0 + r1) + 4 * (q - K)"
    unfolding e using x h le by simp
  also have "\<dots> = field_counts 2 (Suc n) x"
    by (simp add: IH c q_def [symmetric])
  finally show ?case
    by (simp only: h_def)
qed

lemma nibbles_step:
  "(field_counts 2 (2 * n) x AND repeat_mask 4 n 3)
    + ((field_counts 2 (2 * n) x div 4) AND repeat_mask 4 n 3) = field_counts 4 n x"
proof (induction n arbitrary: x)
  case 0
  show ?case by simp
next
  case (Suc n)
  define c0 where "c0 = bit_count 2 x"
  define c1 where "c1 = bit_count 2 (x div 4)"
  define T where "T = field_counts 2 (2 * n) (x div 16)"
  define t0 where "t0 = T mod 4"
  define T' where "T' = T div 4"
  define M where "M = repeat_mask 4 n 3"
  define v where "v = field_counts 2 (2 * Suc n) x"
  have b: "c0 \<le> 2" "c1 \<le> 2" "t0 < 4"
    by (simp_all add: c0_def c1_def t0_def bit_count_le)
  have v: "v = c0 + 4 * (c1 + 4 * T)"
    by (simp add: v_def c0_def c1_def T_def div_16)
  have T: "T = t0 + 4 * T'"
    unfolding t0_def T'_def by (rule split_low)
  have m: "repeat_mask 4 (Suc n) 3 = 3 + 16 * M"
    by (simp add: M_def)
  have v1: "v = (c0 + 4 * c1) + 16 * T"
    using v by simp
  have "c0 + 4 * c1 < 16"
    using b by simp
  then have "((c0 + 4 * c1) + 16 * T) AND (3 + 16 * M) = (c0 + 4 * c1) mod 4 + 16 * (T AND M)"
    by (rule and_low_3)
  moreover have "(c0 + 4 * c1) mod 4 = c0"
    using b by simp
  ultimately have e1: "v AND repeat_mask 4 (Suc n) 3 = c0 + 16 * (T AND M)"
    by (simp only: v1 m)
  have "v div 4 = c1 + 4 * T"
    unfolding v using b by simp
  then have v2: "v div 4 = (c1 + 4 * t0) + 16 * T'"
    using T by simp
  have "c1 + 4 * t0 < 16"
    using b by simp
  then have "((c1 + 4 * t0) + 16 * T') AND (3 + 16 * M) = (c1 + 4 * t0) mod 4 + 16 * (T' AND M)"
    by (rule and_low_3)
  moreover have "(c1 + 4 * t0) mod 4 = c1"
    using b by simp
  ultimately have e2: "(v div 4) AND repeat_mask 4 (Suc n) 3 = c1 + 16 * (T' AND M)"
    by (simp only: v2 m)
  have IH: "(T AND M) + (T' AND M) = field_counts 4 n (x div 16)"
    unfolding T'_def T_def M_def by (rule Suc.IH)
  have c: "bit_count 4 x = c0 + c1"
    using bit_count_split [of 2 2 x] by (simp add: c0_def c1_def)
  have "(v AND repeat_mask 4 (Suc n) 3) + ((v div 4) AND repeat_mask 4 (Suc n) 3)
      = (c0 + c1) + 16 * ((T AND M) + (T' AND M))"
    unfolding e1 e2 by simp
  also have "\<dots> = field_counts 4 (Suc n) x"
    by (simp add: IH c)
  finally show ?case
    by (simp only: v_def)
qed

lemma field_counts_4_low: "field_counts 4 n x mod 16 \<le> 4"
proof (cases n)
  case 0
  then show ?thesis by simp
next
  case (Suc m)
  have "bit_count 4 x \<le> 4"
    by (rule bit_count_le)
  then show ?thesis
    by (simp add: Suc)
qed

lemma bytes_step:
  "(field_counts 4 (2 * n) x + field_counts 4 (2 * n) x div 16) AND repeat_mask 8 n 15
    = field_counts 8 n x"
proof (induction n arbitrary: x)
  case 0
  show ?case by simp
next
  case (Suc n)
  define c0 where "c0 = bit_count 4 x"
  define c1 where "c1 = bit_count 4 (x div 16)"
  define T where "T = field_counts 4 (2 * n) (x div 256)"
  define t0 where "t0 = T mod 16"
  define T' where "T' = T div 16"
  define M where "M = repeat_mask 8 n 15"
  define v where "v = field_counts 4 (2 * Suc n) x"
  have b: "c0 \<le> 4" "c1 \<le> 4" "t0 \<le> 4"
    by (simp_all add: c0_def c1_def t0_def T_def bit_count_le field_counts_4_low)
  have v: "v = c0 + 16 * (c1 + 16 * T)"
    by (simp add: v_def c0_def c1_def T_def div_256)
  have T: "T = t0 + 16 * T'"
    unfolding t0_def T'_def by (rule split_low)
  have m: "repeat_mask 8 (Suc n) 15 = 15 + 256 * M"
    by (simp add: M_def)
  have "v div 16 = c1 + 16 * T"
    unfolding v using b by simp
  then have s: "v + v div 16 = (c0 + c1 + 16 * (c1 + t0)) + 256 * (T + T')"
    using v T by simp
  have "c0 + c1 + 16 * (c1 + t0) < 256"
    using b by simp
  then have "((c0 + c1 + 16 * (c1 + t0)) + 256 * (T + T')) AND (15 + 256 * M)
      = (c0 + c1 + 16 * (c1 + t0)) mod 16 + 256 * ((T + T') AND M)"
    by (rule and_low_15)
  moreover have "(c0 + c1 + 16 * (c1 + t0)) mod 16 = (c0 + c1) mod 16"
    by (simp only: mod_mult_self2)
  then have "(c0 + c1 + 16 * (c1 + t0)) mod 16 = c0 + c1"
    using b by simp
  ultimately have e: "(v + v div 16) AND repeat_mask 8 (Suc n) 15 = (c0 + c1) + 256 * ((T + T') AND M)"
    by (simp only: s m)
  have IH: "(T + T') AND M = field_counts 8 n (x div 256)"
    unfolding T'_def T_def M_def by (rule Suc.IH)
  have c: "bit_count 8 x = c0 + c1"
    using bit_count_split [of 4 4 x] by (simp add: c0_def c1_def)
  have "(v + v div 16) AND repeat_mask 8 (Suc n) 15 = field_counts 8 (Suc n) x"
    unfolding e by (simp add: IH c)
  then show ?case
    by (simp only: v_def)
qed

lemma field_counts_less: "field_counts w n x < 2 ^ (w * n)"
proof (induction n arbitrary: x)
  case 0
  show ?case by simp
next
  case (Suc n)
  define c where "c = bit_count w x"
  define F where "F = field_counts w n (x div 2 ^ w)"
  have "c \<le> w"
    unfolding c_def by (rule bit_count_le)
  also have "w < 2 ^ w"
    by (rule less_exp)
  finally have c: "c < 2 ^ w" .
  have "F < 2 ^ (w * n)"
    unfolding F_def by (rule Suc.IH)
  then have "Suc F \<le> 2 ^ (w * n)"
    by simp
  then have "2 ^ w * Suc F \<le> 2 ^ w * 2 ^ (w * n)"
    by (rule mult_le_mono2)
  moreover from c have "c + 2 ^ w * F < 2 ^ w * Suc F"
    by simp
  ultimately have "c + 2 ^ w * F < 2 ^ w * 2 ^ (w * n)"
    by simp
  then show ?case
    by (simp add: c_def F_def power_add)
qed

lemma field_counts_numeral:
  "field_counts w (numeral k) x
    = bit_count w x + 2 ^ w * field_counts w (pred_numeral k) (x div 2 ^ w)"
  by (simp add: numeral_eq_Suc)

lemma repeat_mask_numeral:
  "repeat_mask w (numeral k) m = m + 2 ^ w * repeat_mask w (pred_numeral k) m"
  by (simp add: numeral_eq_Suc)

lemma masks:
  "repeat_mask 2 32 (Suc 0) = 0x5555555555555555"
  "repeat_mask 4 16 3 = 0x3333333333333333"
  "repeat_mask 8 8 15 = 0x0f0f0f0f0f0f0f0f"
  by (simp_all add: repeat_mask_numeral)

lemma unat_masks:
  "unat (0x5555555555555555 :: uint64) = repeat_mask 2 32 1"
  "unat (0x3333333333333333 :: uint64) = repeat_mask 4 16 3"
  "unat (0x0f0f0f0f0f0f0f0f :: uint64) = repeat_mask 8 8 15"
  by (simp_all add: masks)

lemma low_div: "a < 256 \<Longrightarrow> (a + 256 * b) div 256 = b" for a b :: nat
  by simp

lemma low_mod: "a < 128 \<Longrightarrow> (a + 256 * b) mod 128 = a" for a b :: nat
proof -
  assume "a < 128"
  have "(a + 256 * b) mod 128 = (a + 128 * (2 * b)) mod 128"
    by simp
  also have "\<dots> = a mod 128"
    by (rule mod_mult_self2)
  finally show ?thesis
    using \<open>a < 128\<close> by simp
qed

lemma bytes_sum:
  fixes c0 c1 c2 c3 c4 c5 c6 c7 :: nat
  assumes c: "c0 \<le> 8" "c1 \<le> 8" "c2 \<le> 8" "c3 \<le> 8" "c4 \<le> 8" "c5 \<le> 8" "c6 \<le> 8" "c7 \<le> 8"
    and v: "v = c0 + 256 * (c1 + 256 * (c2 + 256 * (c3 + 256 * (c4 + 256 * (c5
        + 256 * (c6 + 256 * c7))))))"
    and i4: "i4 = v + v div 2 ^ 8"
    and i5: "i5 = i4 + i4 div 2 ^ 16"
    and i6: "i6 = i5 + i5 div 2 ^ 32"
  shows "i4 < 2 ^ 64 \<and> i5 < 2 ^ 64 \<and> i6 < 2 ^ 64
    \<and> i6 mod 128 = c0 + c1 + c2 + c3 + c4 + c5 + c6 + c7"
proof -
  define V6 where "V6 = c6 + 256 * c7"
  define V5 where "V5 = c5 + 256 * V6"
  define V4 where "V4 = c4 + 256 * V5"
  define V3 where "V3 = c3 + 256 * V4"
  define V2 where "V2 = c2 + 256 * V3"
  define V1 where "V1 = c1 + 256 * V2"
  have V0: "v = c0 + 256 * V1"
    by (simp only: v V1_def V2_def V3_def V4_def V5_def V6_def)
  note V = V1_def V2_def V3_def V4_def V5_def V6_def
  have d8: "n div 2 ^ 8 = n div 256" and d16: "n div 2 ^ 16 = n div 256 div 256"
    and d32: "n div 2 ^ 32 = n div 256 div 256 div 256 div 256" for n :: nat
    by (simp_all add: div_mult2_eq)
  have "v div 256 = V1"
    unfolding V0 using c by (intro low_div) simp
  then have e4: "i4 = (c0 + c1) + 256 * (V1 + V2)"
    unfolding i4 d8 by (simp add: V0 V1_def)
  have "i4 div 256 = V1 + V2"
    unfolding e4 using c by (intro low_div) simp
  also have "\<dots> = (c1 + c2) + 256 * (V2 + V3)"
    by (simp add: V1_def V2_def)
  finally have "i4 div 256 div 256 = V2 + V3"
    using c by (simp only: low_div)
  then have "i4 div 256 div 256 = (c2 + c3) + 256 * (V3 + V4)"
    by (simp add: V2_def V3_def)
  with e4 have e5: "i5 = (c0 + c1 + c2 + c3) + 256 * (V1 + V2 + V3 + V4)"
    unfolding i5 d16 by (simp add: V2_def V3_def)
  have "i5 div 256 = V1 + V2 + V3 + V4"
    unfolding e5 using c by (intro low_div) simp
  also have "\<dots> = (c1 + c2 + c3 + c4) + 256 * (V2 + V3 + V4 + V5)"
    by (simp add: V)
  finally have "i5 div 256 div 256 = V2 + V3 + V4 + V5"
    using c by (simp only: low_div)
  also have "\<dots> = (c2 + c3 + c4 + c5) + 256 * (V3 + V4 + V5 + V6)"
    by (simp add: V)
  finally have "i5 div 256 div 256 div 256 = V3 + V4 + V5 + V6"
    using c by (simp only: low_div)
  also have "\<dots> = (c3 + c4 + c5 + c6) + 256 * (V4 + V5 + V6 + c7)"
    by (simp add: V)
  finally have "i5 div 256 div 256 div 256 div 256 = V4 + V5 + V6 + c7"
    using c by (simp only: low_div)
  with e5 have e6: "i6 = (c0 + c1 + c2 + c3 + c4 + c5 + c6 + c7)
      + 256 * (V1 + V2 + V3 + V4 + V5 + V6 + c7)"
    unfolding i6 d32 by (simp add: V4_def V5_def V6_def)
  have m: "i6 mod 128 = c0 + c1 + c2 + c3 + c4 + c5 + c6 + c7"
    unfolding e6 using c by (intro low_mod) simp
  from c have "V6 \<le> 2056"
    by (simp add: V6_def)
  then have "V5 \<le> 526344"
    using c by (simp add: V5_def)
  then have "V4 \<le> 134744072"
    using c by (simp add: V4_def)
  then have "V3 \<le> 34494482440"
    using c by (simp add: V3_def)
  then have "V2 \<le> 8830587504648"
    using c by (simp add: V2_def)
  then have b1: "V1 \<le> 2260630401189896"
    using c by (simp add: V1_def)
  then have b0: "v \<le> 578721382704613384"
    using c by (simp add: V0)
  from b0 b1 have b4: "i4 \<le> 580982013105803280"
    unfolding i4 d8 \<open>v div 256 = V1\<close> by simp
  have "i4 div 2 ^ 16 \<le> i4"
    by (rule div_le_dividend)
  with b4 have b5: "i5 \<le> 1161964026211606560"
    unfolding i5 by simp
  have "i5 div 2 ^ 32 \<le> i5"
    by (rule div_le_dividend)
  with b5 have b6: "i6 \<le> 2323928052423213120"
    unfolding i6 by simp
  from b4 b5 b6 m show ?thesis
    by simp
qed

lemma PopCount_naive_unat: "PopCount_naive i = int (bit_count 64 (unat i))"
proof -
  have "bit (unat i) = bit i"
    by (simp add: fun_eq_iff bit_unsigned_iff)
  then show ?thesis
    by (simp only: PopCount_naive_def bit_count_filter [symmetric])
qed

lemma unat_lt64: "unat w < 2 ^ 64" for w :: uint64
  using unsigned_less [of w, where ?'a = nat] by simp

lemma unat_add64: "unat (a + b) = (unat a + unat b) mod 2 ^ 64" for a b :: uint64
  by (simp add: unat_word_ariths)

lemma unat_drop: "unat (drop_bit n w) = unat w div 2 ^ n" for w :: uint64
  by (simp only: unat_drop_bit_eq) (simp only: drop_bit_eq_div)

lemma unat_shift_and: "unat (drop_bit n w AND k) = (unat w div 2 ^ n) AND unat k" for w k :: uint64
  by (simp only: unsigned_and_eq unat_drop)

lemma unat_and: "unat (w AND k) = unat w AND unat k" for w k :: uint64
  by (simp only: unsigned_and_eq)

lemma div_pow:
  "n div 2 ^ 1 = n div 2" "n div 2 ^ 2 = n div 4" "n div 2 ^ 4 = n div 16" for n :: nat
  by simp_all

lemma PopCount_unat: "PopCount i = int (bit_count 64 (unat i))"
proof -
  define x where "x = unat i"
  define i1 where "i1 = i - (drop_bit 1 i AND 0x5555555555555555)"
  define i2 where "i2 = (i1 AND 0x3333333333333333) + (drop_bit 2 i1 AND 0x3333333333333333)"
  define i3 where "i3 = (i2 + drop_bit 4 i2) AND 0x0f0f0f0f0f0f0f0f"
  define i4 where "i4 = i3 + drop_bit 8 i3"
  define i5 where "i5 = i4 + drop_bit 16 i4"
  define i6 where "i6 = i5 + drop_bit 32 i5"
  have P: "PopCount i = go_int (i6 AND 0x7f)"
    by (simp only: PopCount_def Let_def i1_def i2_def i3_def i4_def i5_def i6_def)
  have x: "x < 4 ^ 32"
    unfolding x_def using unat_lt64 [of i] by simp
  have s1: "unat (drop_bit 1 i AND 0x5555555555555555) = (x div 2) AND repeat_mask 2 32 1"
    by (simp only: unat_and unat_drop unat_masks div_pow x_def)
  have "(x div 2) AND repeat_mask 2 32 1 \<le> x div 2"
    by (rule and_nat_le)
  also have "x div 2 \<le> x"
    by (rule div_le_dividend)
  finally have "unat (drop_bit 1 i AND 0x5555555555555555) \<le> unat i"
    by (simp only: s1 x_def)
  then have "drop_bit 1 i AND 0x5555555555555555 \<le> i"
    by (simp only: word_le_nat_alt)
  then have "unat i1 = x - ((x div 2) AND repeat_mask 2 32 1)"
    unfolding i1_def by (simp only: unat_sub s1 x_def)
  with x have u1: "unat i1 = field_counts 2 32 x"
    by (simp only: pairs_step)
  have "unat i2 = ((unat i1 AND repeat_mask 4 16 3) + ((unat i1 div 4) AND repeat_mask 4 16 3))
      mod 2 ^ 64"
    unfolding i2_def by (simp only: unat_add64 unat_and unat_drop unat_masks div_pow)
  also have "\<dots> = field_counts 4 16 x mod 2 ^ 64"
    unfolding u1 using nibbles_step [of 16 x] by simp
  also have "\<dots> = field_counts 4 16 x"
    using field_counts_less [of 4 16 x] by simp
  finally have u2: "unat i2 = field_counts 4 16 x" .
  have "unat i3 = take_bit 64 (unat i2 + unat i2 div 16) AND repeat_mask 8 8 15"
    unfolding i3_def
    by (simp only: unat_and unat_add64 unat_drop unat_masks div_pow take_bit_eq_mod)
  also have "repeat_mask 8 8 15 = take_bit 64 (repeat_mask 8 8 15)"
    by (simp add: masks)
  also have "take_bit 64 (unat i2 + unat i2 div 16) AND take_bit 64 (repeat_mask 8 8 15)
      = take_bit 64 ((unat i2 + unat i2 div 16) AND repeat_mask 8 8 15)"
    by (simp only: take_bit_and)
  also have "\<dots> = take_bit 64 (field_counts 8 8 x)"
    unfolding u2 using bytes_step [of 8 x] by simp
  also have "\<dots> = field_counts 8 8 x"
    using field_counts_less [of 8 8 x] by (simp add: take_bit_nat_eq_self)
  finally have u3: "unat i3 = field_counts 8 8 x" .
  define c0 where "c0 = bit_count 8 x"
  define c1 where "c1 = bit_count 8 (x div 2 ^ 8)"
  define c2 where "c2 = bit_count 8 (x div 2 ^ 8 div 2 ^ 8)"
  define c3 where "c3 = bit_count 8 (x div 2 ^ 8 div 2 ^ 8 div 2 ^ 8)"
  define c4 where "c4 = bit_count 8 (x div 2 ^ 8 div 2 ^ 8 div 2 ^ 8 div 2 ^ 8)"
  define c5 where "c5 = bit_count 8 (x div 2 ^ 8 div 2 ^ 8 div 2 ^ 8 div 2 ^ 8 div 2 ^ 8)"
  define c6 where "c6 = bit_count 8 (x div 2 ^ 8 div 2 ^ 8 div 2 ^ 8 div 2 ^ 8 div 2 ^ 8 div 2 ^ 8)"
  define c7 where
    "c7 = bit_count 8 (x div 2 ^ 8 div 2 ^ 8 div 2 ^ 8 div 2 ^ 8 div 2 ^ 8 div 2 ^ 8 div 2 ^ 8)"
  note cs = c0_def c1_def c2_def c3_def c4_def c5_def c6_def c7_def
  have c: "c0 \<le> 8" "c1 \<le> 8" "c2 \<le> 8" "c3 \<le> 8" "c4 \<le> 8" "c5 \<le> 8" "c6 \<le> 8" "c7 \<le> 8"
    unfolding cs by (rule bit_count_le)+
  define v where "v = field_counts 8 8 x"
  have "v = field_counts 8 (Suc (Suc (Suc (Suc (Suc (Suc (Suc (Suc 0)))))))) x"
    unfolding v_def by (rule arg_cong [where f = "\<lambda>n. field_counts 8 n x"]) simp
  also have "\<dots> = c0 + 2 ^ 8 * (c1 + 2 ^ 8 * (c2 + 2 ^ 8 * (c3 + 2 ^ 8 * (c4 + 2 ^ 8 * (c5
      + 2 ^ 8 * (c6 + 2 ^ 8 * (c7 + 2 ^ 8 * 0)))))))"
    by (simp only: field_counts.simps cs)
  finally have v: "v = c0 + 256 * (c1 + 256 * (c2 + 256 * (c3 + 256 * (c4 + 256 * (c5
      + 256 * (c6 + 256 * c7))))))"
    by simp
  have "bit_count 64 x = bit_count (8 + (8 + (8 + (8 + (8 + (8 + (8 + 8))))))) x"
    by (rule arg_cong [where f = "\<lambda>n. bit_count n x"]) simp
  also have "\<dots> = c0 + (c1 + (c2 + (c3 + (c4 + (c5 + (c6 + c7))))))"
    by (simp only: bit_count_split cs)
  finally have total: "bit_count 64 x = c0 + c1 + c2 + c3 + c4 + c5 + c6 + c7"
    by simp
  define j4 where "j4 = v + v div 2 ^ 8"
  define j5 where "j5 = j4 + j4 div 2 ^ 16"
  define j6 where "j6 = j5 + j5 div 2 ^ 32"
  from bytes_sum [OF c v j4_def j5_def j6_def]
  have b: "j4 < 2 ^ 64" "j5 < 2 ^ 64" "j6 < 2 ^ 64"
    and m: "j6 mod 128 = c0 + c1 + c2 + c3 + c4 + c5 + c6 + c7"
    by simp_all
  have "unat i4 = (v + v div 2 ^ 8) mod 2 ^ 64"
    unfolding i4_def by (simp only: unat_add64 unat_drop u3 v_def)
  with b(1) have u4: "unat i4 = j4"
    by (simp add: j4_def)
  have "unat i5 = (j4 + j4 div 2 ^ 16) mod 2 ^ 64"
    unfolding i5_def by (simp only: unat_add64 unat_drop u4)
  with b(2) have u5: "unat i5 = j5"
    by (simp add: j5_def)
  have "unat i6 = (j5 + j5 div 2 ^ 32) mod 2 ^ 64"
    unfolding i6_def by (simp only: unat_add64 unat_drop u5)
  with b(3) have u6: "unat i6 = j6"
    by (simp add: j6_def)
  have "unat (i6 AND 0x7f) = j6 AND mask 7"
    by (simp add: unat_and u6 mask_eq_exp_minus_1)
  also have "\<dots> = j6 mod 128"
    by (simp add: take_bit_eq_mask [symmetric] take_bit_eq_mod)
  finally have u: "unat (i6 AND 0x7f) = bit_count 64 x"
    by (simp only: m total)
  have "bit_count 64 x \<le> 64"
    by (rule bit_count_le)
  with u have small: "uint (i6 AND 0x7f) < 2 ^ 63" and nn: "- (2 ^ 63) \<le> uint (i6 AND 0x7f)"
    by (simp_all add: uint_nat)
  have "go_int (i6 AND 0x7f) = signed_take_bit 63 (uint (i6 AND 0x7f))"
    by (simp add: go_int_def sint_uint)
  also have "\<dots> = uint (i6 AND 0x7f)"
    using nn small by (rule signed_take_bit_int_eq_self)
  also have "\<dots> = int (bit_count 64 x)"
    by (simp only: uint_nat u)
  finally show ?thesis
    by (simp only: P x_def)
qed

text \<open>
  C3. For every 64-bit input, \<open>PopCount\<close> equals the naive count of the positions in
  \<open>[0, 64)\<close> whose bit is set; in particular \<open>PopCount 0 = 0\<close> and
  \<open>PopCount 0xFFFFFFFFFFFFFFFF = 64\<close>.
\<close>

theorem PopCount_is_naive_count:
  "PopCount i = PopCount_naive i \<and> PopCount 0 = 0 \<and> PopCount 0xFFFFFFFFFFFFFFFF = 64"
proof -
  have "PopCount 0 = 0"
    by (simp add: PopCount_def go_int_def)
  moreover have "PopCount 0xFFFFFFFFFFFFFFFF = 64"
    by (simp add: PopCount_def go_int_def)
  ultimately show ?thesis
    by (simp add: PopCount_unat PopCount_naive_unat)
qed

end
